theory Spec2Isabelle
  imports Main
begin

section \<open>Version comparison (updatechecker.cpp, anonymous namespace and CompareVersions)\<close>

subsection \<open>Character classification and splitting\<close>

datatype CharType = Type_Number | Type_Period | Type_String

text \<open>
  \<open>ClassifyChar\<close>: a period, a decimal digit (\<open>'0'\<close> is byte 48, \<open>'9'\<close> is byte 57), or
  anything else. Bytes are read through \<open>of_char\<close>; the two digit tests agree for a signed
  and an unsigned \<open>char\<close>.
\<close>

definition ClassifyChar :: "char \<Rightarrow> CharType" where
  "ClassifyChar c =
     (if c = CHR ''.'' then Type_Period
      else if (48::nat) \<le> of_char c \<and> of_char c \<le> (57::nat) then Type_Number
      else Type_String)"

text \<open>
  The \<open>for\<close> loop of \<open>SplitVersionString\<close>, from index 1 on: \<open>prevType\<close> and the
  current segment \<open>s\<close> are the loop's variables, the remaining characters its input, and
  every \<open>list.push_back(s)\<close> puts \<open>s\<close> in front of what the rest of the loop appends. The
  empty input is the last \<open>push_back\<close> after the loop.
\<close>

fun split_loop :: "CharType \<Rightarrow> string \<Rightarrow> string \<Rightarrow> string list" where
  "split_loop prevType s [] = [s]"
| "split_loop prevType s (c # cs) =
     (let newType = ClassifyChar c in
      if prevType \<noteq> newType \<or> prevType = Type_Period
      then s # split_loop newType [c] cs
      else split_loop newType (s @ [c]) cs)"

definition SplitVersionString :: "string \<Rightarrow> string list" where
  "SplitVersionString version =
     (case version of
        [] \<Rightarrow> []
      | c # cs \<Rightarrow> split_loop (ClassifyChar c) [c] cs)"

subsection \<open>The library functions CompareVersions calls\<close>

text \<open>
  \<open>a[0]\<close> on a \<open>std::string\<close>: the first byte, and the terminating NUL for the empty
  string.
\<close>

definition first_char :: "string \<Rightarrow> char" where
  "first_char a = (case a of [] \<Rightarrow> CHR 0x00 | c # _ \<Rightarrow> c)"

text \<open>
  \<open>atoi\<close> on a component: the decimal value of the leading digits. A component handed to
  \<open>atoi\<close> starts with a digit, so the white space and sign that \<open>atoi\<close> would skip never
  occur. A value beyond \<open>INT_MAX\<close> is undefined in ISO C; the Windows C runtime this code
  is built against returns \<open>INT_MAX\<close>, which is what \<open>atoi\<close> below does.
\<close>

definition is_digit :: "char \<Rightarrow> bool" where
  "is_digit c = ((48::nat) \<le> of_char c \<and> of_char c \<le> (57::nat))"

definition INT_MAX :: int where
  "INT_MAX = 2147483647"

fun atoi_digits :: "int \<Rightarrow> string \<Rightarrow> int" where
  "atoi_digits acc [] = acc"
| "atoi_digits acc (c # cs) =
     (if is_digit c then atoi_digits (acc * 10 + (of_char c - 48)) cs else acc)"

definition atoi :: "string \<Rightarrow> int" where
  "atoi s = min (atoi_digits 0 s) INT_MAX"

text \<open>
  \<open>std::string::compare\<close> is specified by the sign of its result only: negative, zero or
  positive as the left string is before, equal to or after the right one in the
  lexicographic order of their bytes (read as unsigned), a proper prefix coming first.
  \<open>CompareVersions\<close> therefore takes the library's \<open>compare\<close> as its first argument, and
  \<open>compare_contract\<close> is what the standard promises of it. \<open>std_compare_sign\<close> is the
  specified sign.
\<close>

fun std_compare_sign :: "string \<Rightarrow> string \<Rightarrow> int" where
  "std_compare_sign [] [] = 0"
| "std_compare_sign [] (y # ys) = - 1"
| "std_compare_sign (x # xs) [] = 1"
| "std_compare_sign (x # xs) (y # ys) =
     (if (of_char x :: nat) < of_char y then - 1
      else if (of_char y :: nat) < of_char x then 1
      else std_compare_sign xs ys)"

definition compare_contract :: "(string \<Rightarrow> string \<Rightarrow> int) \<Rightarrow> bool" where
  "compare_contract cmp = (\<forall>a b. sgn (cmp a b) = std_compare_sign a b)"

text \<open>
  Two implementations that meet the contract: one that answers with the sign itself, and
  one in the style of \<open>memcmp\<close>-based libraries, which answers with the difference of the
  first two bytes that differ, or else with the difference of the lengths.
\<close>

definition compare_sign :: "string \<Rightarrow> string \<Rightarrow> int" where
  "compare_sign a b = std_compare_sign a b"

fun compare_diff :: "string \<Rightarrow> string \<Rightarrow> int" where
  "compare_diff [] ys = - int (length ys)"
| "compare_diff (x # xs) [] = int (length (x # xs))"
| "compare_diff (x # xs) (y # ys) =
     (if (of_char x :: nat) = of_char y then compare_diff xs ys
      else int (of_char x) - int (of_char y))"

subsection \<open>CompareVersions\<close>

text \<open>
  The \<open>for\<close> loop over the common length of the two component lists, as a recursion on
  both lists at once: \<open>Some r\<close> is a \<open>return r\<close> inside the loop, \<open>None\<close> is the loop
  running to its end (one list exhausted).
\<close>

fun compare_loop :: "(string \<Rightarrow> string \<Rightarrow> int) \<Rightarrow> string list \<Rightarrow> string list \<Rightarrow> int option" where
  "compare_loop cmp (a # as) (b # bs) =
     (let typeA = ClassifyChar (first_char a);
          typeB = ClassifyChar (first_char b) in
      if typeA = typeB then
        (if typeA = Type_String then
           (let result = cmp a b in
            if result \<noteq> 0 then Some result else compare_loop cmp as bs)
         else if typeA = Type_Number then
           (let intA = atoi a; intB = atoi b in
            if intA > intB then Some 1
            else if intA < intB then Some (- 1)
            else compare_loop cmp as bs)
         else compare_loop cmp as bs)
      else
        (if typeA \<noteq> Type_String \<and> typeB = Type_String then Some 1
         else if typeA = Type_String \<and> typeB \<noteq> Type_String then Some (- 1)
         else Some (if typeA = Type_Number then 1 else - 1)))"
| "compare_loop cmp [] bs = None"
| "compare_loop cmp as [] = None"

definition CompareVersions :: "(string \<Rightarrow> string \<Rightarrow> int) \<Rightarrow> string \<Rightarrow> string \<Rightarrow> int" where
  "CompareVersions cmp verA verB =
     (let partsA = SplitVersionString verA;
          partsB = SplitVersionString verB;
          n = min (length partsA) (length partsB) in
      case compare_loop cmp partsA partsB of
        Some r \<Rightarrow> r
      | None \<Rightarrow>
          if length partsA = length partsB then 0
          else
            (let (missingPartType, shorterResult, longerResult) =
                   (if length partsA > length partsB
                    then (ClassifyChar (first_char (partsA ! n)), - 1, 1)
                    else (ClassifyChar (first_char (partsB ! n)), 1, - 1)) in
             if missingPartType = Type_String then shorterResult else longerResult))"

text \<open>
  The sign of the decision the loop takes at one pair of components (\<open>0\<close>: the loop goes
  on to the next pair), and the sign of the whole comparison on two component lists. They
  are used to state and prove the order properties; \<open>CompareVersions\<close> is related to them
  by \<open>sgn_CompareVersions\<close>.
\<close>

definition part_sign :: "(string \<Rightarrow> string \<Rightarrow> int) \<Rightarrow> string \<Rightarrow> string \<Rightarrow> int" where
  "part_sign cmp a b =
     (let typeA = ClassifyChar (first_char a);
          typeB = ClassifyChar (first_char b) in
      if typeA = typeB then
        (if typeA = Type_String then sgn (cmp a b)
         else if typeA = Type_Number then sgn (atoi a - atoi b)
         else 0)
      else if typeA \<noteq> Type_String \<and> typeB = Type_String then 1
      else if typeA = Type_String \<and> typeB \<noteq> Type_String then - 1
      else if typeA = Type_Number then 1 else - 1)"

fun parts_sign :: "(string \<Rightarrow> string \<Rightarrow> int) \<Rightarrow> string list \<Rightarrow> string list \<Rightarrow> int" where
  "parts_sign cmp [] [] = 0"
| "parts_sign cmp [] (b # bs) = (if ClassifyChar (first_char b) = Type_String then 1 else - 1)"
| "parts_sign cmp (a # as) [] = (if ClassifyChar (first_char a) = Type_String then - 1 else 1)"
| "parts_sign cmp (a # as) (b # bs) =
     (if part_sign cmp a b \<noteq> 0 then part_sign cmp a b else parts_sign cmp as bs)"

section \<open>The eligibility probe (GetServerVersion)\<close>

text \<open>
  \<open>std::string::find(needle, pos)\<close>: the least index from \<open>pos\<close> on at which \<open>needle\<close>
  occurs, \<open>None\<close> for \<open>npos\<close>. \<open>substr(pos, n)\<close> is \<open>take n (drop pos s)\<close>.
\<close>

fun find_str :: "string \<Rightarrow> string \<Rightarrow> nat option" where
  "find_str needle [] = (if needle = [] then Some 0 else None)"
| "find_str needle (c # cs) =
     (if take (length needle) (c # cs) = needle then Some 0
      else map_option Suc (find_str needle cs))"

definition find_from :: "string \<Rightarrow> string \<Rightarrow> nat \<Rightarrow> nat option" where
  "find_from s needle pos =
     (if pos > length s then None
      else map_option (\<lambda>i. pos + i) (find_str needle (drop pos s)))"

definition substr :: "string \<Rightarrow> nat \<Rightarrow> nat \<Rightarrow> string" where
  "substr s pos n = take n (drop pos s)"

definition ParseGetVersionResponseJSON :: "string \<Rightarrow> string \<Rightarrow> string" where
  "ParseGetVersionResponseJSON json key =
     (case find_from json key 0 of
        None \<Rightarrow> []
      | Some start \<Rightarrow>
          (case find_from json '':'' start of
             None \<Rightarrow> []
           | Some start \<Rightarrow>
               (case find_from json [CHR 0x22] start of
                  None \<Rightarrow> []
                | Some start \<Rightarrow>
                    (case find_from json [CHR 0x22] (start + 1) of
                       None \<Rightarrow> []
                     | Some end' \<Rightarrow> substr json (start + 1) (end' - start - 1)))))"

text \<open>
  \<open>GetServerVersion\<close>, as a function of the body \<open>HttpGetWinINet\<close> returned for
  \<open>host + "/getVersion"\<close> (the empty string when the request failed).
\<close>

definition kDefaultServerVersion :: string where
  "kDefaultServerVersion = ''2.1.2''"

definition GetServerVersion :: "string \<Rightarrow> string" where
  "GetServerVersion json_response =
     (if json_response = [] then []
      else
        (let value = ParseGetVersionResponseJSON json_response ''oethServerVersion'' in
         if value \<noteq> [] then value
         else
           (let value = ParseGetVersionResponseJSON json_response ''error_msg'' in
            if value \<noteq> [] then
              (case find_from value ''404'' 0 of
                 Some start \<Rightarrow> kDefaultServerVersion
               | None \<Rightarrow> [])
            else [])))"

text \<open>
  What the scan of \<open>ParseGetVersionResponseJSON\<close> reads from a response, said of the
  response's text: \<open>v\<close> is the value after \<open>key\<close> when the response is
  \<open>pre @ key @ a @ ":" @ b @ ["] @ v @ ["] @ rest\<close>, where \<open>key\<close> occurs nowhere before
  \<open>pre\<close> ends (this is its first occurrence, wherever in the text it stands), no colon is
  in \<open>a\<close>, and no double quote is in \<open>b\<close> or in \<open>v\<close>: the text between the first two
  double quotes that follow the first colon after the key's first occurrence.
\<close>

definition value_after :: "string \<Rightarrow> string \<Rightarrow> string \<Rightarrow> bool" where
  "value_after json key v =
     (\<exists>pre a b rest.
        json = pre @ key @ a @ '':'' @ b @ [CHR 0x22] @ v @ [CHR 0x22] @ rest \<and>
        (\<forall>j<length pre. take (length key) (drop j json) \<noteq> key) \<and>
        CHR '':'' \<notin> set a \<and> CHR 0x22 \<notin> set b \<and> CHR 0x22 \<notin> set v)"

section \<open>One update check (UpdateChecker::PerformUpdateCheck)\<close>

subsection \<open>Data, collaborators and effects\<close>

text \<open>
  One entry of the feed, with the fields \<open>PerformUpdateCheck\<close> and \<open>ShouldSkipUpdate\<close>
  read. \<open>GetDownloadURL()\<close> is the field \<open>DownloadURL\<close>.
\<close>

record Appcast =
  Version :: string
  MinServerVersion :: string
  CriticalUpdate :: bool
  ReleaseNotesURL :: string
  DownloadURL :: string

text \<open>
  Modelled from the spec: \<open>Appcast::IsValid\<close> is declared in appcast.h, which is not among
  the sources; the spec's data model has "Version must be a non-empty string; entries with
  unparsable/missing Version are considered invalid candidates".
\<close>

definition IsValid :: "Appcast \<Rightarrow> bool" where
  "IsValid appcast = (Version appcast \<noteq> [])"

text \<open>
  What can be thrown inside the \<open>try\<close> block, by the handler that catches it: a
  \<open>DownloadException\<close>, any other \<open>std::exception\<close> (both with their \<open>what()\<close>), or an
  object of any other type.
\<close>

datatype exn = DownloadException string | StdException string | OtherException

datatype error_code = Err_Generic | Err_AppcastXmlUnavailable

text \<open>The effects of a check, in the order they happen.\<close>

datatype event =
    NotifyNoUpdates bool bool
  | NotifyUpdateAvailable Appcast bool
  | NotifyUpdateError error_code string
  | WriteConfigValue string int

fun is_notification :: "event \<Rightarrow> bool" where
  "is_notification (WriteConfigValue k v) = False"
| "is_notification ev = True"

fun is_error_report :: "event \<Rightarrow> bool" where
  "is_error_report (NotifyUpdateError c m) = True"
| "is_error_report ev = False"

text \<open>
  The collaborators and settings one check reads. A collaborator that can throw answers
  with the exception (\<open>Inl\<close>, or \<open>Some\<close> for \<open>CheckForInsecureURL\<close>, which returns
  nothing).
\<close>

record env =
  StringCompare :: "string \<Rightarrow> string \<Rightarrow> int"
  AppcastURL :: string
  CheckForInsecureURL :: "string \<Rightarrow> string \<Rightarrow> exn option"
  DownloadFile :: "string \<Rightarrow> exn + string"
  Load :: "string \<Rightarrow> exn + Appcast list"
  VersionResponse :: string
  AppBuildVersion :: string
  SkipThisVersion :: "string option"
  ShouldAutomaticallyInstall :: bool
  Now :: int
  CheckForUpdates :: "bool option"
  LastCheckTime :: "int option"
  UpdateCheckInterval :: int

subsection \<open>The skip policy\<close>

definition ShouldSkipUpdate :: "env \<Rightarrow> Appcast \<Rightarrow> bool" where
  "ShouldSkipUpdate e appcast =
     (if CriticalUpdate appcast then False
      else
        (case SkipThisVersion e of
           Some toSkip \<Rightarrow> toSkip = Version appcast
         | None \<Rightarrow> False))"

definition Manual_ShouldSkipUpdate :: "env \<Rightarrow> Appcast \<Rightarrow> bool" where
  "Manual_ShouldSkipUpdate e appcast = False"

text \<open>The three checker classes; only \<open>Manual\<close> overrides \<open>ShouldSkipUpdate\<close>.\<close>

datatype checker = Periodic | OneShot | Manual

fun skip_policy :: "checker \<Rightarrow> env \<Rightarrow> Appcast \<Rightarrow> bool" where
  "skip_policy Manual = Manual_ShouldSkipUpdate"
| "skip_policy k = ShouldSkipUpdate"

subsection \<open>The stages of the try block\<close>

text \<open>
  Lines 339 to 347: the feed's URL from the settings, the check of its scheme, the download
  and the parse. Each of the three collaborators may throw.
\<close>

definition fetch_feed :: "env \<Rightarrow> exn + Appcast list" where
  "fetch_feed e =
     (let url = AppcastURL e in
      if url = []
      then Inl (StdException
                  ''The update source configuration is missing. Please contact support.'')
      else
        (case CheckForInsecureURL e url ''appcast feed'' of
           Some x \<Rightarrow> Inl x
         | None \<Rightarrow>
             (case DownloadFile e url of
                Inl x \<Rightarrow> Inl x
              | Inr appcast_xml \<Rightarrow> Load e appcast_xml)))"

text \<open>
  Lines 350 to 356: \<open>remove_if\<close> and \<open>erase\<close> drop the entries the predicate holds for
  and keep the others in their order.
\<close>

definition filter_min_server ::
  "(string \<Rightarrow> string \<Rightarrow> int) \<Rightarrow> string \<Rightarrow> Appcast list \<Rightarrow> Appcast list" where
  "filter_min_server cmp current_server_version all =
     filter (\<lambda>appcast.
        \<not> CompareVersions cmp current_server_version (MinServerVersion appcast) < 0) all"

text \<open>
  \<open>std::stable_sort\<close> with a comparator \<open>lt\<close>: the sorted arrangement in which
  equivalent elements keep their order. Insertion from the right computes it: an element is
  put in front of the first element of the sorted rest that is not less than it.
\<close>

fun insert_by :: "('a \<Rightarrow> 'a \<Rightarrow> bool) \<Rightarrow> 'a \<Rightarrow> 'a list \<Rightarrow> 'a list" where
  "insert_by lt x [] = [x]"
| "insert_by lt x (y # ys) =
     (if lt y x then y # insert_by lt x ys else x # y # ys)"

definition stable_sort :: "('a \<Rightarrow> 'a \<Rightarrow> bool) \<Rightarrow> 'a list \<Rightarrow> 'a list" where
  "stable_sort lt xs = foldr (insert_by lt) xs []"

text \<open>Lines 366 to 370.\<close>

definition sort_by_version ::
  "(string \<Rightarrow> string \<Rightarrow> int) \<Rightarrow> Appcast list \<Rightarrow> Appcast list" where
  "sort_by_version cmp all =
     stable_sort (\<lambda>a b. CompareVersions cmp (Version a) (Version b) < 0) all"

text \<open>
  Lines 372 to 378: \<open>find_if\<close> and the choice between \<open>*pos\<close> and \<open>all.back()\<close>. The
  list is not empty here.
\<close>

definition critical_and_newer ::
  "(string \<Rightarrow> string \<Rightarrow> int) \<Rightarrow> string \<Rightarrow> Appcast \<Rightarrow> bool" where
  "critical_and_newer cmp currentVersion appcast =
     (CriticalUpdate appcast \<and> CompareVersions cmp currentVersion (Version appcast) < 0)"

definition choose_appcast ::
  "(string \<Rightarrow> string \<Rightarrow> int) \<Rightarrow> string \<Rightarrow> Appcast list \<Rightarrow> Appcast" where
  "choose_appcast cmp currentVersion all =
     (case find (critical_and_newer cmp currentVersion) all of
        Some pos \<Rightarrow> pos
      | None \<Rightarrow> last all)"

text \<open>Lines 380 to 383.\<close>

definition validate_urls :: "env \<Rightarrow> Appcast \<Rightarrow> exn option" where
  "validate_urls e appcast =
     (case (if ReleaseNotesURL appcast \<noteq> []
            then CheckForInsecureURL e (ReleaseNotesURL appcast) ''release notes''
            else None) of
        Some x \<Rightarrow> Some x
      | None \<Rightarrow>
          (if DownloadURL appcast \<noteq> []
           then CheckForInsecureURL e (DownloadURL appcast) ''update file''
           else None))"

text \<open>Lines 387 to 401: the outdated judgment, the skip policy and the notification.\<close>

definition judge :: "checker \<Rightarrow> env \<Rightarrow> bool \<Rightarrow> string \<Rightarrow> Appcast \<Rightarrow> event list" where
  "judge k e show_dialog currentVersion appcast =
     (if \<not> IsValid appcast
         \<or> CompareVersions (StringCompare e) currentVersion (Version appcast) \<ge> 0
      then [NotifyNoUpdates (ShouldAutomaticallyInstall e) show_dialog]
      else if skip_policy k e appcast \<and> \<not> show_dialog then []
      else [NotifyUpdateAvailable appcast (ShouldAutomaticallyInstall e)])"

text \<open>
  The entries that pass the filter, and the candidate chosen among them, as functions of
  the parsed feed.
\<close>

definition filtered :: "env \<Rightarrow> Appcast list \<Rightarrow> Appcast list" where
  "filtered e all =
     filter_min_server (StringCompare e) (GetServerVersion (VersionResponse e)) all"

definition candidate :: "env \<Rightarrow> Appcast list \<Rightarrow> Appcast" where
  "candidate e all =
     choose_appcast (StringCompare e) (AppBuildVersion e)
       (sort_by_version (StringCompare e) (filtered e all))"

text \<open>
  The try block: the events it causes, in order, and the exception that leaves it, if any.
\<close>

definition try_block :: "checker \<Rightarrow> env \<Rightarrow> bool \<Rightarrow> event list \<times> exn option" where
  "try_block k e show_dialog =
     (case fetch_feed e of
        Inl x \<Rightarrow> ([], Some x)
      | Inr all \<Rightarrow>
          (let current_server_version = GetServerVersion (VersionResponse e);
               all = filter_min_server (StringCompare e) current_server_version all in
           if all = []
           then ([NotifyNoUpdates (ShouldAutomaticallyInstall e) show_dialog], None)
           else
             (let all = sort_by_version (StringCompare e) all;
                  currentVersion = AppBuildVersion e;
                  appcast = choose_appcast (StringCompare e) currentVersion all in
              case validate_urls e appcast of
                Some x \<Rightarrow> ([], Some x)
              | None \<Rightarrow>
                  (WriteConfigValue ''LastCheckTime'' (Now e)
                     # judge k e show_dialog currentVersion appcast, None))))"

subsection \<open>PerformUpdateCheck with its handlers\<close>

text \<open>
  The three \<open>catch\<close> clauses, each ending in \<open>throw;\<close>. The result is the events of the
  call and the exception that propagates to the caller (\<open>None\<close>: the call returns).
\<close>

definition PerformUpdateCheck :: "checker \<Rightarrow> env \<Rightarrow> bool \<Rightarrow> event list \<times> exn option" where
  "PerformUpdateCheck k e show_dialog =
     (case try_block k e show_dialog of
        (evs, None) \<Rightarrow> (evs, None)
      | (evs, Some (DownloadException what)) \<Rightarrow>
          (evs @ (if show_dialog then [NotifyUpdateError Err_AppcastXmlUnavailable what] else []),
           Some (DownloadException what))
      | (evs, Some (StdException what)) \<Rightarrow>
          (evs @ (if show_dialog then [NotifyUpdateError Err_Generic what] else []),
           Some (StdException what))
      | (evs, Some OtherException) \<Rightarrow>
          (evs @ [NotifyUpdateError Err_Generic ''Unknown exception''], Some OtherException))"

section \<open>The periodic scheduler (PeriodicUpdateChecker::Run)\<close>

text \<open>
  One turn of the \<open>while (true)\<close> loop. \<open>time_t\<close> values are integers (64 bits wide, so
  that sums and differences of real times do not overflow); \<open>unsigned\<close> is 32 bits wide,
  and a conversion to it or a product in it is taken modulo \<open>2 ^ 32\<close>. A turn either ends
  in the wait, with the timeout handed to \<open>WaitUntilSignaled\<close> in milliseconds, or is left
  by the exception of the check it ran.
\<close>

definition to_unsigned :: "int \<Rightarrow> int" where
  "to_unsigned x = x mod 2 ^ 32"

record wait =
  cycle_run :: bool
  sleepTimeInSeconds :: int
  timeout_ms :: int

definition wait_for :: "bool \<Rightarrow> int \<Rightarrow> wait" where
  "wait_for cycle secs =
     \<lparr>cycle_run = cycle, sleepTimeInSeconds = secs, timeout_ms = to_unsigned (secs * 1000)\<rparr>"

definition Run_turn :: "env \<Rightarrow> int \<Rightarrow> event list \<times> (exn + wait)" where
  "Run_turn e currentTime =
     (let checkUpdates = (case CheckForUpdates e of Some b \<Rightarrow> b | None \<Rightarrow> False) in
      if checkUpdates then
        (let lastCheck = (case LastCheckTime e of Some t \<Rightarrow> t | None \<Rightarrow> 0);
             interval = UpdateCheckInterval e;
             nextCheck = lastCheck + interval in
         if currentTime \<ge> nextCheck then
           (case PerformUpdateCheck Periodic e False of
              (evs, Some x) \<Rightarrow> (evs, Inl x)
            | (evs, None) \<Rightarrow> (evs, Inr (wait_for True (to_unsigned interval))))
         else ([], Inr (wait_for False (to_unsigned (nextCheck - currentTime)))))
      else ([], Inr (wait_for False (60 * 60))))"

section \<open>Concrete inputs\<close>

text \<open>Three bodies the probe can receive: an error with 404, an error without, and a page with neither key.\<close>

definition response_404 :: string where
  \<open>response_404 = ''{"error_msg":"HTTP 404 Not Found"}''\<close>

definition response_500 :: string where
  \<open>response_500 = ''{"error_msg":"HTTP 500 Internal Server Error"}''\<close>

definition response_no_keys :: string where
  \<open>response_no_keys = ''<html>Bad Gateway</html>''\<close>

subsection \<open>Environments for the orchestrator and the scheduler\<close>

text \<open>The events that write a setting, and the notifications among a check's events.\<close>

fun is_write :: "event \<Rightarrow> bool" where
  "is_write (WriteConfigValue k v) = True"
| "is_write ev = False"

definition notifications :: "event list \<Rightarrow> event list" where
  "notifications evs = filter is_notification evs"

text \<open>
  A successful probe, a scheme check that lets \<open>https\<close> through, and a feed of three
  entries that all ask for server version 2.0: 1.0, 2.0 (critical) and 3.0.
\<close>

definition response_ok :: string where
  \<open>response_ok = ''{"oethServerVersion": "2.1.2"}''\<close>

definition https_only :: "string \<Rightarrow> string \<Rightarrow> exn option" where
  "https_only url purpose =
     (if take 8 url = ''https://'' then None else Some (StdException ''insecure URL''))"

definition entry :: "string \<Rightarrow> bool \<Rightarrow> Appcast" where
  "entry v crit =
     \<lparr>Version = v, MinServerVersion = ''2.0'', CriticalUpdate = crit,
      ReleaseNotesURL = [], DownloadURL = ''https://example.com/setup.exe''\<rparr>"

definition example_feed :: "Appcast list" where
  "example_feed = [entry ''1.0'' False, entry ''2.0'' True, entry ''3.0'' False]"

definition example_env :: env where
  "example_env =
     \<lparr>StringCompare = compare_diff,
      AppcastURL = ''https://example.com/appcast.xml'',
      CheckForInsecureURL = https_only,
      DownloadFile = (\<lambda>url. Inr ''<rss/>''),
      Load = (\<lambda>xml. Inr example_feed),
      VersionResponse = response_ok,
      AppBuildVersion = ''0.5'',
      SkipThisVersion = None,
      ShouldAutomaticallyInstall = False,
      Now = 1700001800,
      CheckForUpdates = Some True,
      LastCheckTime = Some 1700000000,
      UpdateCheckInterval = 3600\<rparr>"

text \<open>
  The same with the probe failed and a feed whose one entry names no minimum server
  version; with a download that throws an object that is no \<open>std::exception\<close>; with the
  user having skipped 3.0 and no critical entry; and with an interval of 5000000 seconds.
\<close>

definition open_entry :: Appcast where
  "open_entry = (entry ''2.0'' False)\<lparr>MinServerVersion := []\<rparr>"

definition env_probe_failed :: env where
  "env_probe_failed = example_env\<lparr>VersionResponse := [], Load := (\<lambda>xml. Inr [open_entry])\<rparr>"

definition env_unknown_exception :: env where
  "env_unknown_exception = example_env\<lparr>DownloadFile := (\<lambda>url. Inl OtherException)\<rparr>"

definition env_skipped :: env where
  "env_skipped =
     example_env\<lparr>Load := (\<lambda>xml. Inr [entry ''1.0'' False, entry ''3.0'' False]),
                  SkipThisVersion := Some ''3.0''\<rparr>"

definition env_long_interval :: env where
  "env_long_interval = example_env\<lparr>UpdateCheckInterval := 5000000\<rparr>"

text \<open>The example with the probe failed: the request for the server version gave nothing.\<close>

definition env_no_probe :: env where
  "env_no_probe = example_env\<lparr>VersionResponse := []\<rparr>"

text \<open>An entry whose minimum server version starts with a letter.\<close>

definition lettered_entry :: Appcast where
  "lettered_entry = (entry ''2.0'' False)\<lparr>MinServerVersion := ''v2.0''\<rparr>"

text \<open>
  Three more bodies: one that names \<open>oethServerVersion\<close> inside the text of another
  member, one whose error text holds an escaped double quote in front of 404, and one
  whose \<open>oethServerVersion\<close> is \<open>null\<close>.
\<close>

definition response_key_in_text :: string where
  \<open>response_key_in_text = ''{"msg":"oethServerVersion missing","error_msg":"404"}''\<close>

definition response_escaped_quote :: string where
  \<open>response_escaped_quote =
     ''{"error_msg":"Not found: '' @ [CHR 0x5C, CHR 0x22] @ ''/getVersion''
       @ [CHR 0x5C, CHR 0x22] @ '' 404"}''\<close>

definition response_null_version :: string where
  \<open>response_null_version = ''{"oethServerVersion":null,"error_msg":"HTTP 404"}''\<close>

section \<open>Properties of the version order\<close>

subsection \<open>The specified sign of std::string::compare\<close>

lemma std_compare_sign_refl: "std_compare_sign a a = 0"
  by (induction a) auto

lemma std_compare_sign_anti: "std_compare_sign b a = - std_compare_sign a b"
  by (induction a b rule: std_compare_sign.induct) auto

lemma std_compare_sign_range: "std_compare_sign a b \<in> {- 1, 0, 1}"
  by (induction a b rule: std_compare_sign.induct) auto

lemma std_compare_sign_trans:
  "std_compare_sign a b \<ge> 0 \<Longrightarrow> std_compare_sign b c \<ge> 0 \<Longrightarrow>
   std_compare_sign a c \<ge> 0 \<and> (std_compare_sign a b > 0 \<or> std_compare_sign b c > 0 \<longrightarrow> std_compare_sign a c > 0)"
proof (induction a b arbitrary: c rule: std_compare_sign.induct)
  case 1
  then show ?case by simp
next
  case (2 y ys)
  then show ?case by simp
next
  case (3 x xs)
  then show ?case by (cases c) auto
next
  case (4 x xs y ys)
  show ?case
  proof (cases c)
    case Nil
    then show ?thesis by simp
  next
    case (Cons z zs)
    consider (lt) "(of_char x :: nat) < of_char y" | (gt) "(of_char y :: nat) < of_char x"
      | (eq) "(of_char x :: nat) = of_char y" by linarith
    then show ?thesis
    proof cases
      case lt
      with "4.prems" show ?thesis by simp
    next
      case gt
      with "4.prems"(2) Cons show ?thesis by (simp split: if_splits)
    next
      case eq
      consider (lt2) "(of_char y :: nat) < of_char z" | (gt2) "(of_char z :: nat) < of_char y"
        | (eq2) "(of_char y :: nat) = of_char z" by linarith
      then show ?thesis
      proof cases
        case lt2
        with "4.prems"(2) Cons show ?thesis by simp
      next
        case gt2
        with eq Cons show ?thesis by simp
      next
        case eq2
        have "0 \<le> std_compare_sign xs ys" using "4.prems"(1) eq by simp
        moreover have "0 \<le> std_compare_sign ys zs" using "4.prems"(2) eq2 Cons by simp
        ultimately have "std_compare_sign xs zs \<ge> 0 \<and>
          (std_compare_sign xs ys > 0 \<or> std_compare_sign ys zs > 0 \<longrightarrow> std_compare_sign xs zs > 0)"
          using "4.IH"[of zs] eq by simp
        then show ?thesis using eq eq2 Cons by simp
      qed
    qed
  qed
qed

lemma compare_sign_contract: "compare_contract compare_sign"
  unfolding compare_contract_def compare_sign_def
proof (intro allI)
  fix a b show "sgn (std_compare_sign a b) = std_compare_sign a b"
    using std_compare_sign_range[of a b] by auto
qed

lemma compare_diff_contract: "compare_contract compare_diff"
  unfolding compare_contract_def
proof (intro allI)
  fix a b show "sgn (compare_diff a b) = std_compare_sign a b"
  proof (induction a b rule: compare_diff.induct)
    case (1 ys)
    then show ?case by (cases ys) auto
  next
    case (2 x xs)
    then show ?case by simp
  next
    case (3 x xs y ys)
    then show ?case by (auto simp: sgn_if)
  qed
qed

lemma part_sign_range: "part_sign cmp a b \<in> {- 1, 0, 1}"
  by (auto simp: part_sign_def Let_def sgn_if)

lemma part_sign_refl: "compare_contract cmp \<Longrightarrow> part_sign cmp a a = 0"
  by (simp add: part_sign_def Let_def compare_contract_def std_compare_sign_refl)

lemma part_sign_anti: "compare_contract cmp \<Longrightarrow> part_sign cmp b a = - part_sign cmp a b"
  unfolding part_sign_def compare_contract_def Let_def
  by (cases "ClassifyChar (first_char a)"; cases "ClassifyChar (first_char b)")
     (simp_all add: std_compare_sign_anti[of b a] sgn_if)

lemma part_sign_trans:
  assumes "compare_contract cmp" "part_sign cmp a b \<ge> 0" "part_sign cmp b c \<ge> 0"
  shows "part_sign cmp a c \<ge> 0 \<and> (part_sign cmp a b > 0 \<or> part_sign cmp b c > 0 \<longrightarrow> part_sign cmp a c > 0)"
proof -
  have s: "\<And>x y. sgn (cmp x y) = std_compare_sign x y"
    using assms(1) by (simp add: compare_contract_def)
  show ?thesis
    using assms(2,3) std_compare_sign_trans[of a b c]
    unfolding part_sign_def Let_def s
    by (cases "ClassifyChar (first_char a)"; cases "ClassifyChar (first_char b)";
        cases "ClassifyChar (first_char c)")
       (simp_all add: sgn_if split: if_splits)
qed

lemma part_sign_nonString_left:
  "part_sign cmp a b \<ge> 0 \<Longrightarrow> ClassifyChar (first_char b) \<noteq> Type_String \<Longrightarrow>
   ClassifyChar (first_char a) \<noteq> Type_String"
  by (auto simp: part_sign_def Let_def split: if_splits)

lemma part_sign_String_right:
  "part_sign cmp b c \<ge> 0 \<Longrightarrow> ClassifyChar (first_char b) = Type_String \<Longrightarrow>
   ClassifyChar (first_char c) = Type_String"
  by (auto simp: part_sign_def Let_def split: if_splits)

subsection \<open>The loop and the sign of the comparison\<close>

lemma loop_Some_sign:
  "compare_loop cmp as bs = Some r \<Longrightarrow> sgn r = parts_sign cmp as bs \<and> r \<noteq> 0"
proof (induction cmp as bs rule: compare_loop.induct)
  case (1 cmp a as b bs)
  then show ?case
    by (cases "ClassifyChar (first_char a)"; cases "ClassifyChar (first_char b)")
       (auto simp: part_sign_def Let_def sgn_if split: if_splits)
qed simp_all

lemma loop_None_sign:
  "compare_loop cmp as bs = None \<Longrightarrow>
   parts_sign cmp as bs =
     (if length as = length bs then 0
      else if length as > length bs
      then (if ClassifyChar (first_char (as ! min (length as) (length bs))) = Type_String then - 1 else 1)
      else (if ClassifyChar (first_char (bs ! min (length as) (length bs))) = Type_String then 1 else - 1))"
proof (induction cmp as bs rule: compare_loop.induct)
  case (1 cmp a as b bs)
  then show ?case
    by (cases "ClassifyChar (first_char a)"; cases "ClassifyChar (first_char b)")
       (auto simp: part_sign_def Let_def sgn_if split: if_splits)
next
  case (2 cmp bs)
  then show ?case by (cases bs) auto
next
  case (3 cmp as)
  then show ?case by (cases as) auto
qed

lemma sgn_CompareVersions:
  "sgn (CompareVersions cmp verA verB) =
   parts_sign cmp (SplitVersionString verA) (SplitVersionString verB)"
proof (cases "compare_loop cmp (SplitVersionString verA) (SplitVersionString verB)")
  case None
  then show ?thesis
    using loop_None_sign[OF None]
    by (simp add: CompareVersions_def Let_def)
next
  case (Some r)
  then show ?thesis
    using loop_Some_sign[OF Some]
    by (simp add: CompareVersions_def Let_def)
qed

subsection \<open>The sign of the comparison is a total preorder\<close>


lemma parts_sign_range: "parts_sign cmp as bs \<in> {- 1, 0, 1}"
proof (induction cmp as bs rule: parts_sign.induct)
  case (4 cmp a as b bs)
  then show ?case using part_sign_range[of cmp a b] by auto
qed simp_all

lemma parts_sign_refl: "compare_contract cmp \<Longrightarrow> parts_sign cmp as as = 0"
  by (induction as) (simp_all add: part_sign_refl)

lemma parts_sign_anti:
  "compare_contract cmp \<Longrightarrow> parts_sign cmp bs as = - parts_sign cmp as bs"
proof (induction cmp as bs rule: parts_sign.induct)
  case (4 cmp a as b bs)
  then show ?case using part_sign_anti[of cmp a b] by simp
qed simp_all

lemma parts_sign_trans:
  assumes c: "compare_contract cmp"
  shows "parts_sign cmp as bs \<ge> 0 \<Longrightarrow> parts_sign cmp bs cs \<ge> 0 \<Longrightarrow>
         parts_sign cmp as cs \<ge> 0 \<and>
         (parts_sign cmp as bs > 0 \<or> parts_sign cmp bs cs > 0 \<longrightarrow> parts_sign cmp as cs > 0)"
proof (induction as arbitrary: bs cs)
  case Nil
  show ?case
  proof (cases bs)
    case Nil
    with Nil.prems show ?thesis by simp
  next
    case bs: (Cons b bs')
    with Nil.prems(1) have b: "ClassifyChar (first_char b) = Type_String"
      by (auto split: if_splits)
    show ?thesis
    proof (cases cs)
      case Nil
      with Nil.prems(2) bs b show ?thesis by simp
    next
      case (Cons z zs)
      have "part_sign cmp b z \<ge> 0"
        using Nil.prems(2) bs Cons part_sign_range[of cmp b z] by (auto split: if_splits)
      from part_sign_String_right[OF this b] Cons show ?thesis by simp
    qed
  qed
next
  case (Cons a as')
  show ?case
  proof (cases bs)
    case Nil
    with Cons.prems(1) have a: "ClassifyChar (first_char a) \<noteq> Type_String"
      by (auto split: if_splits)
    show ?thesis
    proof (cases cs)
      case Nil
      with a show ?thesis by simp
    next
      case cs: (Cons z zs)
      with Nil Cons.prems(2) have z: "ClassifyChar (first_char z) = Type_String"
        by (auto split: if_splits)
      from a z have "part_sign cmp a z = 1" by (simp add: part_sign_def Let_def)
      with cs show ?thesis by simp
    qed
  next
    case bs: (Cons b bs')
    have ab: "part_sign cmp a b \<ge> 0"
      using Cons.prems(1) bs part_sign_range[of cmp a b] by (auto split: if_splits)
    show ?thesis
    proof (cases cs)
      case Nil
      with Cons.prems(2) bs have "ClassifyChar (first_char b) \<noteq> Type_String"
        by (auto split: if_splits)
      from part_sign_nonString_left[OF ab this] Nil show ?thesis by simp
    next
      case cs: (Cons z zs)
      have bz: "part_sign cmp b z \<ge> 0"
        using Cons.prems(2) bs cs part_sign_range[of cmp b z] by (auto split: if_splits)
      note t = part_sign_trans[OF c ab bz]
      show ?thesis
      proof (cases "part_sign cmp a b > 0 \<or> part_sign cmp b z > 0")
        case True
        with t have "part_sign cmp a z > 0" by blast
        with cs show ?thesis by simp
      next
        case False
        with ab bz have e: "part_sign cmp a b = 0" "part_sign cmp b z = 0" by auto
        have "part_sign cmp z a \<ge> 0"
          using part_sign_trans[OF c, of z b a] e
            part_sign_anti[OF c, of b z] part_sign_anti[OF c, of a b]
          by simp
        with t part_sign_anti[OF c, of a z] have az: "part_sign cmp a z = 0" by simp
        have "parts_sign cmp as' bs' \<ge> 0" using Cons.prems(1) bs e by simp
        moreover have "parts_sign cmp bs' zs \<ge> 0" using Cons.prems(2) bs cs e by simp
        ultimately have "parts_sign cmp as' zs \<ge> 0 \<and>
          (parts_sign cmp as' bs' > 0 \<or> parts_sign cmp bs' zs > 0 \<longrightarrow> parts_sign cmp as' zs > 0)"
          by (rule Cons.IH)
        with az cs bs e show ?thesis by simp
      qed
    qed
  qed
qed

lemma CompareVersions_pos_iff:
  "CompareVersions cmp a b > 0 \<longleftrightarrow>
   parts_sign cmp (SplitVersionString a) (SplitVersionString b) > 0"
  using sgn_CompareVersions[of cmp a b] by (simp add: sgn_if split: if_splits)

lemma CompareVersions_neg_iff:
  "CompareVersions cmp a b < 0 \<longleftrightarrow>
   parts_sign cmp (SplitVersionString a) (SplitVersionString b) < 0"
  using sgn_CompareVersions[of cmp a b] by (simp add: sgn_if split: if_splits)

lemma CompareVersions_zero_iff:
  "CompareVersions cmp a b = 0 \<longleftrightarrow>
   parts_sign cmp (SplitVersionString a) (SplitVersionString b) = 0"
  using sgn_CompareVersions[of cmp a b] by (simp add: sgn_if split: if_splits)

lemma CompareVersions_refl: "compare_contract cmp \<Longrightarrow> CompareVersions cmp a a = 0"
  by (simp add: CompareVersions_zero_iff parts_sign_refl)

lemma CompareVersions_anti:
  "compare_contract cmp \<Longrightarrow> sgn (CompareVersions cmp a b) = - sgn (CompareVersions cmp b a)"
  by (simp add: sgn_CompareVersions parts_sign_anti[of cmp "SplitVersionString a"])

lemma CompareVersions_nonneg_iff:
  "CompareVersions cmp a b \<ge> 0 \<longleftrightarrow>
   parts_sign cmp (SplitVersionString a) (SplitVersionString b) \<ge> 0"
  using sgn_CompareVersions[of cmp a b] by (simp add: sgn_if split: if_splits)

lemma CompareVersions_trans:
  "compare_contract cmp \<Longrightarrow> CompareVersions cmp a b > 0 \<Longrightarrow> CompareVersions cmp b c > 0 \<Longrightarrow>
   CompareVersions cmp a c > 0"
  unfolding CompareVersions_pos_iff
  using parts_sign_trans[of cmp "SplitVersionString a" "SplitVersionString b" "SplitVersionString c"]
  by simp

lemma CompareVersions_trans_nonneg:
  "compare_contract cmp \<Longrightarrow> CompareVersions cmp a b \<ge> 0 \<Longrightarrow> CompareVersions cmp b c \<ge> 0 \<Longrightarrow>
   CompareVersions cmp a c \<ge> 0"
  unfolding CompareVersions_nonneg_iff
  using parts_sign_trans[of cmp "SplitVersionString a" "SplitVersionString b" "SplitVersionString c"]
  by simp

lemma CompareVersions_neg_swap:
  "compare_contract cmp \<Longrightarrow> CompareVersions cmp a b < 0 \<longleftrightarrow> CompareVersions cmp b a > 0"
  using CompareVersions_anti[of cmp a b] by (simp add: sgn_if split: if_splits)

text \<open>
  The cases the comments of the code and the design name; none of them reaches
  \<open>std::string::compare\<close>. Two strings that differ can compare equal.
\<close>

lemma CompareVersions_literal_cases:
  "CompareVersions cmp ''1.2.0'' ''1.2rc1'' = 1"
  "CompareVersions cmp ''1.2rc1'' ''1.2.0'' = - 1"
  "CompareVersions cmp ''1.5'' ''1.5b3'' = 1"
  "CompareVersions cmp ''1.5.1'' ''1.5'' = 1"
  "CompareVersions cmp ''2.0.0'' ''2.0'' = 1"
  "CompareVersions cmp ''2.0'' ''2.0'' = 0"
  "CompareVersions cmp ''1.0'' ''1.00'' = 0"
  by code_simp+

subsection \<open>The value CompareVersions returns\<close>


lemma loop_step_cases:
  "compare_loop cmp (a # as) (b # bs) = compare_loop cmp as bs \<or>
   compare_loop cmp (a # as) (b # bs) = Some 1 \<or>
   compare_loop cmp (a # as) (b # bs) = Some (- 1) \<or>
   (ClassifyChar (first_char a) = Type_String \<and> ClassifyChar (first_char b) = Type_String \<and>
    cmp a b \<noteq> 0 \<and> compare_loop cmp (a # as) (b # bs) = Some (cmp a b))"
  by (simp add: Let_def)

lemma loop_Some_value:
  "compare_loop cmp as bs = Some r \<Longrightarrow>
   r \<in> {- 1, 0, 1} \<or>
   (\<exists>x y. x \<in> set as \<and> y \<in> set bs \<and>
      ClassifyChar (first_char x) = Type_String \<and> ClassifyChar (first_char y) = Type_String \<and>
      r = cmp x y \<and> cmp x y \<noteq> 0)"
proof (induction as arbitrary: bs)
  case Nil
  then show ?case by simp
next
  case (Cons a as)
  show ?case
  proof (cases bs)
    case Nil
    with Cons.prems show ?thesis by simp
  next
    case bs: (Cons b bs')
    from loop_step_cases[of cmp a as b bs'] consider
      (go) "compare_loop cmp (a # as) (b # bs') = compare_loop cmp as bs'"
      | (one) "compare_loop cmp (a # as) (b # bs') = Some 1 \<or>
               compare_loop cmp (a # as) (b # bs') = Some (- 1)"
      | (str) "ClassifyChar (first_char a) = Type_String"
              "ClassifyChar (first_char b) = Type_String" "cmp a b \<noteq> 0"
              "compare_loop cmp (a # as) (b # bs') = Some (cmp a b)"
      by blast
    then show ?thesis
    proof cases
      case go
      with Cons.prems bs have "compare_loop cmp as bs' = Some r" by simp
      from Cons.IH[OF this] bs show ?thesis by auto
    next
      case one
      with Cons.prems bs show ?thesis by auto
    next
      case str
      with Cons.prems bs have "r = cmp a b" by simp
      with str(1,2,3) bs show ?thesis by auto
    qed
  qed
qed

lemma CompareVersions_value:
  "CompareVersions cmp a b \<in> {- 1, 0, 1} \<or>
   (\<exists>x y. x \<in> set (SplitVersionString a) \<and> y \<in> set (SplitVersionString b) \<and>
      ClassifyChar (first_char x) = Type_String \<and> ClassifyChar (first_char y) = Type_String \<and>
      CompareVersions cmp a b = cmp x y \<and> cmp x y \<noteq> 0)"
proof (cases "compare_loop cmp (SplitVersionString a) (SplitVersionString b)")
  case None
  then show ?thesis by (simp add: CompareVersions_def Let_def)
next
  case (Some r)
  then have "CompareVersions cmp a b = r" by (simp add: CompareVersions_def Let_def)
  with loop_Some_value[OF Some] show ?thesis by simp
qed

text \<open>
  Claim C5 says that \<open>CompareVersions\<close> returns a value in \<open>{-1, 0, 1}\<close> for every pair of
  version strings. The code returns \<open>-1\<close>, \<open>0\<close> or \<open>1\<close> on every path but one: where two
  textual components differ it returns the value of \<open>a.compare(b)\<close> as it is. So the
  result is \<open>-1\<close>, \<open>0\<close>, \<open>1\<close>, or the non-zero value that \<open>std::string::compare\<close> gave
  for a textual component of the first string and a textual component of the second; it is
  in \<open>{-1, 0, 1}\<close> whenever the library's \<open>compare\<close> answers in that set only.
\<close>

theorem CompareVersions_range:
  "(CompareVersions cmp a b \<in> {- 1, 0, 1} \<or>
    (\<exists>x y. x \<in> set (SplitVersionString a) \<and> y \<in> set (SplitVersionString b) \<and>
       ClassifyChar (first_char x) = Type_String \<and> ClassifyChar (first_char y) = Type_String \<and>
       CompareVersions cmp a b = cmp x y \<and> cmp x y \<noteq> 0)) \<and>
   ((\<forall>x y. cmp x y \<in> {- 1, 0, 1}) \<longrightarrow> CompareVersions cmp a b \<in> {- 1, 0, 1})"
proof -
  have "CompareVersions cmp a b \<in> {- 1, 0, 1}" if h: "\<forall>x y. cmp x y \<in> {- 1, 0, 1}"
  proof -
    from CompareVersions_value[of cmp a b] consider
      "CompareVersions cmp a b \<in> {- 1, 0, 1}"
      | x y where "CompareVersions cmp a b = cmp x y" by blast
    then show ?thesis
    proof cases
      case 1
      then show ?thesis .
    next
      case 2
      with h show ?thesis by simp
    qed
  qed
  with CompareVersions_value[of cmp a b] show ?thesis by blast
qed

text \<open>The library's compare that answers with signs: the result is in the set.\<close>

theorem CompareVersions_range_witness:
  "(\<forall>x y. compare_sign x y \<in> {- 1, 0, 1}) \<and>
   CompareVersions compare_sign ''1.0rc1'' ''1.0beta1'' \<in> {- 1, 0, 1}"
proof -
  have h: "\<forall>x y. compare_sign x y \<in> {- 1, 0, 1}"
    using std_compare_sign_range by (simp add: compare_sign_def)
  with CompareVersions_range[of compare_sign "''1.0rc1''" "''1.0beta1''"] show ?thesis by blast
qed

text \<open>
  A \<open>compare\<close> that meets the standard's contract and answers with the difference of the
  first differing bytes: \<open>"rc"\<close> against \<open>"beta"\<close> is \<open>114 - 98\<close>, and that is what
  \<open>CompareVersions\<close> returns for \<open>"1.0rc1"\<close> and \<open>"1.0beta1"\<close>.
\<close>

theorem CompareVersions_range_counterexample:
  "compare_contract compare_diff \<and>
   CompareVersions compare_diff ''1.0rc1'' ''1.0beta1'' = 16 \<and>
   CompareVersions compare_diff ''1.0rc1'' ''1.0beta1'' \<notin> {- 1, 0, 1}"
proof -
  have "CompareVersions compare_diff ''1.0rc1'' ''1.0beta1'' = 16" by code_simp
  with compare_diff_contract show ?thesis by simp
qed

text \<open>
  Claim C1: \<open>CompareVersions\<close> is a total order on version strings, for any
  \<open>std::string::compare\<close> that meets the standard's contract: \<open>Compare(a, a) = 0\<close> for
  every string; \<open>sign(Compare(a, b)) = - sign(Compare(b, a))\<close> for every two; and
  \<open>Compare(a, b) > 0\<close> and \<open>Compare(b, c) > 0\<close> give \<open>Compare(a, c) > 0\<close>. The last
  conjunct is the same for \<open>\<ge>\<close>, which makes \<open>Compare(a, b) < 0\<close> a strict weak
  ordering, what a sort comparator has to be.
\<close>

theorem CompareVersions_total_order:
  "compare_contract cmp \<Longrightarrow>
   CompareVersions cmp a a = 0 \<and>
   sgn (CompareVersions cmp a b) = - sgn (CompareVersions cmp b a) \<and>
   (CompareVersions cmp a b > 0 \<and> CompareVersions cmp b c > 0 \<longrightarrow> CompareVersions cmp a c > 0) \<and>
   (CompareVersions cmp a b \<ge> 0 \<and> CompareVersions cmp b c \<ge> 0 \<longrightarrow> CompareVersions cmp a c \<ge> 0)"
  using CompareVersions_refl[of cmp a] CompareVersions_anti[of cmp a b]
    CompareVersions_trans[of cmp a b c] CompareVersions_trans_nonneg[of cmp a b c]
  by blast

text \<open>At \<open>"1.2.0"\<close>, \<open>"1.2rc1"\<close> and \<open>"1.2beta3"\<close>, with the byte-difference compare.\<close>

theorem CompareVersions_total_order_witness:
  "compare_contract compare_diff \<and>
   CompareVersions compare_diff ''1.2.0'' ''1.2rc1'' > 0 \<and>
   CompareVersions compare_diff ''1.2rc1'' ''1.2beta3'' > 0 \<and>
   CompareVersions compare_diff ''1.2.0'' ''1.2.0'' = 0 \<and>
   sgn (CompareVersions compare_diff ''1.2.0'' ''1.2rc1'') =
     - sgn (CompareVersions compare_diff ''1.2rc1'' ''1.2.0'') \<and>
   CompareVersions compare_diff ''1.2.0'' ''1.2beta3'' > 0"
proof -
  have ab: "CompareVersions compare_diff ''1.2.0'' ''1.2rc1'' > 0" by code_simp
  have bc: "CompareVersions compare_diff ''1.2rc1'' ''1.2beta3'' > 0" by code_simp
  from CompareVersions_total_order[OF compare_diff_contract, of "''1.2.0''" "''1.2rc1''" "''1.2beta3''"]
    ab bc compare_diff_contract
  show ?thesis by blast
qed

section \<open>Properties of the eligibility probe\<close>

lemma find_str_None_iff:
  "find_str needle s = None \<longleftrightarrow> \<not> (\<exists>p q. s = p @ needle @ q)"
proof (induction s)
  case Nil
  then show ?case by auto
next
  case (Cons c cs)
  show ?case
  proof (cases "take (length needle) (c # cs) = needle")
    case True
    then have "c # cs = [] @ needle @ drop (length needle) (c # cs)"
      by (metis append_Nil append_take_drop_id)
    then have "\<exists>p q. c # cs = p @ needle @ q" by blast
    with True show ?thesis by simp
  next
    case False
    have "(\<exists>p q. c # cs = p @ needle @ q) \<longleftrightarrow> (\<exists>p q. cs = p @ needle @ q)"
    proof
      assume "\<exists>p q. c # cs = p @ needle @ q"
      then obtain p q where pq: "c # cs = p @ needle @ q" by blast
      show "\<exists>p q. cs = p @ needle @ q"
      proof (cases p)
        case Nil
        with pq have "take (length needle) (c # cs) = needle" by simp
        with False show ?thesis by simp
      next
        case (Cons p1 ps)
        with pq have "cs = ps @ needle @ q" by simp
        then show ?thesis by blast
      qed
    next
      assume "\<exists>p q. cs = p @ needle @ q"
      then obtain p q where "cs = p @ needle @ q" by blast
      then have "c # cs = (c # p) @ needle @ q" by simp
      then show "\<exists>p q. c # cs = p @ needle @ q" by blast
    qed
    with False Cons.IH show ?thesis by simp
  qed
qed

lemma find_from_0: "find_from s needle 0 = find_str needle s"
  by (cases "find_str needle s") (simp_all add: find_from_def)

lemma find_from_0_None_iff:
  "find_from s needle 0 = None \<longleftrightarrow> \<not> (\<exists>p q. s = p @ needle @ q)"
  by (simp add: find_from_0 find_str_None_iff)

lemma Parse_key_absent:
  "\<not> (\<exists>p q. json = p @ key @ q) \<Longrightarrow> ParseGetVersionResponseJSON json key = []"
  using find_from_0_None_iff[of json key] by (simp add: ParseGetVersionResponseJSON_def)

lemma GetServerVersion_unfold:
  "GetServerVersion json =
     (if json = [] then []
      else if ParseGetVersionResponseJSON json ''oethServerVersion'' \<noteq> []
      then ParseGetVersionResponseJSON json ''oethServerVersion''
      else if \<exists>p q. ParseGetVersionResponseJSON json ''error_msg'' = p @ ''404'' @ q
      then ''2.1.2'' else [])"
proof -
  let ?v = "ParseGetVersionResponseJSON json ''error_msg''"
  have n: "find_from ?v ''404'' 0 = None \<longleftrightarrow> \<not> (\<exists>p q. ?v = p @ ''404'' @ q)"
    by (rule find_from_0_None_iff)
  have e: "?v = [] \<Longrightarrow> \<not> (\<exists>p q. ?v = p @ ''404'' @ q)" by simp
  show ?thesis
  proof (cases "find_from ?v ''404'' 0")
    case None
    with n show ?thesis
      by (simp add: GetServerVersion_def Let_def)
  next
    case (Some i)
    with n have c: "\<exists>p q. ?v = p @ ''404'' @ q" by simp
    with e have "?v \<noteq> []" by blast
    with Some c show ?thesis
      by (simp add: GetServerVersion_def Let_def kDefaultServerVersion_def)
  qed
qed

subsection \<open>What find returns\<close>

lemma find_str_Some_first:
  "find_str needle s = Some i \<Longrightarrow>
   take (length needle) (drop i s) = needle \<and> i \<le> length s \<and>
   (\<forall>j<i. take (length needle) (drop j s) \<noteq> needle)"
proof (induction s arbitrary: i)
  case Nil
  then show ?case by (simp split: if_splits)
next
  case (Cons c cs)
  show ?case
  proof (cases "take (length needle) (c # cs) = needle")
    case True
    with Cons.prems show ?thesis by simp
  next
    case False
    with Cons.prems obtain k where k: "find_str needle cs = Some k" "i = Suc k" by auto
    from Cons.IH[OF k(1)] have ih: "take (length needle) (drop k cs) = needle" "k \<le> length cs"
      "\<forall>j<k. take (length needle) (drop j cs) \<noteq> needle" by simp_all
    have "take (length needle) (drop j (c # cs)) \<noteq> needle" if "j < i" for j
    proof (cases j)
      case 0
      with False show ?thesis by simp
    next
      case (Suc j')
      with that k(2) ih(3) show ?thesis by simp
    qed
    with ih k(2) show ?thesis by simp
  qed
qed

lemma find_str_first_Some:
  "take (length needle) (drop i s) = needle \<Longrightarrow> i \<le> length s \<Longrightarrow>
   (\<forall>j<i. take (length needle) (drop j s) \<noteq> needle) \<Longrightarrow> find_str needle s = Some i"
proof (induction s arbitrary: i)
  case Nil
  then show ?case by auto
next
  case (Cons c cs)
  show ?case
  proof (cases i)
    case 0
    with Cons.prems show ?thesis by simp
  next
    case (Suc k)
    with Cons.prems(3) have n0: "take (length needle) (c # cs) \<noteq> needle" by force
    from Suc Cons.prems have "take (length needle) (drop k cs) = needle" "k \<le> length cs" by simp_all
    moreover have "\<forall>j<k. take (length needle) (drop j cs) \<noteq> needle"
    proof (intro allI impI)
      fix j assume "j < k"
      then have "Suc j < i" using Suc by simp
      with Cons.prems(3) have "take (length needle) (drop (Suc j) (c # cs)) \<noteq> needle" by blast
      then show "take (length needle) (drop j cs) \<noteq> needle" by simp
    qed
    ultimately have "find_str needle cs = Some k" by (rule Cons.IH)
    with n0 Suc show ?thesis by simp
  qed
qed

lemma find_char_app: "c \<notin> set p \<Longrightarrow> find_str [c] (p @ c # t) = Some (length p)"
  by (induction p) auto

lemma find_char_Some:
  "find_str [c] s = Some i \<Longrightarrow> \<exists>p t. s = p @ c # t \<and> c \<notin> set p \<and> length p = i"
proof (induction s arbitrary: i)
  case Nil
  then show ?case by simp
next
  case (Cons d ds)
  show ?case
  proof (cases "d = c")
    case True
    with Cons.prems have "i = 0" by simp
    with True show ?thesis by auto
  next
    case False
    with Cons.prems obtain k where k: "find_str [c] ds = Some k" "i = Suc k" by auto
    from Cons.IH[OF k(1)] obtain p t where "ds = p @ c # t" "c \<notin> set p" "length p = k" by blast
    with False k(2) have "d # ds = (d # p) @ c # t \<and> c \<notin> set (d # p) \<and> length (d # p) = i"
      by simp
    then show ?thesis by blast
  qed
qed

lemma find_from_char_app:
  "drop pos s = p @ c # t \<Longrightarrow> c \<notin> set p \<Longrightarrow> find_from s [c] pos = Some (pos + length p)"
proof -
  assume d: "drop pos s = p @ c # t" and n: "c \<notin> set p"
  from d have "pos \<le> length s" by (cases "pos \<le> length s") auto
  with d find_char_app[OF n, of t] show ?thesis by (simp add: find_from_def)
qed

lemma find_from_char_Some:
  "find_from s [c] pos = Some i \<Longrightarrow>
   \<exists>p t. drop pos s = p @ c # t \<and> c \<notin> set p \<and> i = pos + length p"
proof -
  assume a: "find_from s [c] pos = Some i"
  then obtain k where k: "find_str [c] (drop pos s) = Some k" "i = pos + k"
    by (auto simp: find_from_def split: if_splits)
  from find_char_Some[OF k(1)] k(2) show ?thesis by auto
qed

lemma drop_after: "drop pos s = p @ t \<Longrightarrow> drop (pos + length p) s = t"
proof -
  assume "drop pos s = p @ t"
  then have "drop (length p) (drop pos s) = t" by simp
  then show ?thesis by (simp add: add.commute)
qed

subsection \<open>The scan reads the value after the key, and nothing else\<close>

lemma Parse_reads:
  assumes va: "value_after json key v" and nk: "CHR '':'' \<notin> set key"
  shows "ParseGetVersionResponseJSON json key = v"
proof -
  from va obtain pre a b rest where
    j: "json = pre @ key @ a @ '':'' @ b @ [CHR 0x22] @ v @ [CHR 0x22] @ rest"
    and first: "\<forall>j<length pre. take (length key) (drop j json) \<noteq> key"
    and na: "CHR '':'' \<notin> set a" and nb: "CHR 0x22 \<notin> set b" and nv: "CHR 0x22 \<notin> set v"
    unfolding value_after_def by blast
  let ?s1 = "length pre"
  let ?s2 = "?s1 + length (key @ a)"
  let ?s3 = "?s2 + length (CHR '':'' # b)"
  have d1: "drop ?s1 json = (key @ a) @ CHR '':'' # (b @ [CHR 0x22] @ v @ [CHR 0x22] @ rest)"
    by (simp add: j)
  have "take (length key) (drop ?s1 json) = key" by (simp add: j)
  moreover have "?s1 \<le> length json" by (simp add: j)
  ultimately have f1: "find_from json key 0 = Some ?s1"
    using first by (simp add: find_from_0 find_str_first_Some)
  from nk na have "CHR '':'' \<notin> set (key @ a)" by simp
  from find_from_char_app[OF d1 this] have f2: "find_from json '':'' ?s1 = Some ?s2" .
  from drop_after[OF d1]
  have d2: "drop ?s2 json = (CHR '':'' # b) @ CHR 0x22 # (v @ [CHR 0x22] @ rest)" by simp
  from nb have "CHR 0x22 \<notin> set (CHR '':'' # b)" by simp
  from find_from_char_app[OF d2 this] have f3: "find_from json [CHR 0x22] ?s2 = Some ?s3" .
  from drop_after[OF d2] have "drop ?s3 json = CHR 0x22 # (v @ [CHR 0x22] @ rest)" .
  then have "drop ?s3 json = [CHR 0x22] @ (v @ CHR 0x22 # rest)" by simp
  from drop_after[OF this] have d3: "drop (?s3 + 1) json = v @ CHR 0x22 # rest" by simp
  from find_from_char_app[OF d3 nv]
  have f4: "find_from json [CHR 0x22] (?s3 + 1) = Some (?s3 + 1 + length v)" .
  have "substr json (?s3 + 1) (?s3 + 1 + length v - ?s3 - 1) = v"
    unfolding substr_def d3 by simp
  with f1 f2 f3 f4 show ?thesis
    by (simp only: ParseGetVersionResponseJSON_def option.case)
qed

lemma key_before_colon:
  assumes "key @ t = p @ c # u" and "c \<notin> set key"
  shows "\<exists>a. p = key @ a \<and> t = a @ c # u"
proof -
  from assms(1) consider (l) w where "key = p @ w" "w @ t = c # u"
    | (r) w where "key @ w = p" "t = w @ c # u"
    by (auto simp: append_eq_append_conv2)
  then show ?thesis
  proof cases
    case l
    show ?thesis
    proof (cases w)
      case Nil
      with l show ?thesis by simp
    next
      case (Cons x xs)
      with l have "c \<in> set key" by simp
      with assms(2) show ?thesis by simp
    qed
  next
    case r
    then show ?thesis by auto
  qed
qed

lemma Parse_nonempty_value_after:
  assumes ne: "ParseGetVersionResponseJSON json key \<noteq> []" and nk: "CHR '':'' \<notin> set key"
  shows "value_after json key (ParseGetVersionResponseJSON json key)"
proof -
  from ne obtain s1 where f1: "find_from json key 0 = Some s1"
    by (auto simp: ParseGetVersionResponseJSON_def split: option.splits)
  with ne obtain s2 where f2: "find_from json '':'' s1 = Some s2"
    by (auto simp: ParseGetVersionResponseJSON_def split: option.splits)
  with ne f1 obtain s3 where f3: "find_from json [CHR 0x22] s2 = Some s3"
    by (auto simp: ParseGetVersionResponseJSON_def split: option.splits)
  with ne f1 f2 obtain e where f4: "find_from json [CHR 0x22] (s3 + 1) = Some e"
    by (auto simp: ParseGetVersionResponseJSON_def split: option.splits)
  from f1 f2 f3 f4 have val: "ParseGetVersionResponseJSON json key = substr json (s3 + 1) (e - s3 - 1)"
    by (simp add: ParseGetVersionResponseJSON_def)
  from f1 have "find_str key json = Some s1" by (simp add: find_from_0)
  from find_str_Some_first[OF this]
  have k1: "take (length key) (drop s1 json) = key" and k2: "s1 \<le> length json"
    and k3: "\<forall>j<s1. take (length key) (drop j json) \<noteq> key" by simp_all
  define pre where "pre = take s1 json"
  define t where "t = drop (length key) (drop s1 json)"
  from k2 have lp: "length pre = s1" by (simp add: pre_def)
  from k1 have dk: "drop s1 json = key @ t"
    unfolding t_def by (metis append_take_drop_id)
  have j1: "json = pre @ key @ t"
    unfolding pre_def using dk by (metis append_take_drop_id)
  from find_from_char_Some[OF f2] obtain p2 u2 where
    c2: "drop s1 json = p2 @ CHR '':'' # u2" "CHR '':'' \<notin> set p2" "s2 = s1 + length p2"
    by blast
  from c2(1) dk have "key @ t = p2 @ CHR '':'' # u2" by simp
  from key_before_colon[OF this nk] obtain a where a: "p2 = key @ a" "t = a @ CHR '':'' # u2"
    by blast
  from c2(2) a(1) have na: "CHR '':'' \<notin> set a" by simp
  from drop_after[OF c2(1)] c2(3) have d2: "drop s2 json = CHR '':'' # u2" by simp
  from find_from_char_Some[OF f3] obtain p3 u3 where
    c3: "drop s2 json = p3 @ CHR 0x22 # u3" "CHR 0x22 \<notin> set p3" "s3 = s2 + length p3"
    by blast
  from c3(1) d2 have e3: "CHR '':'' # u2 = p3 @ CHR 0x22 # u3" by simp
  then obtain b where b: "p3 = CHR '':'' # b" "u2 = b @ CHR 0x22 # u3"
    by (cases p3) auto
  from c3(2) b(1) have nb: "CHR 0x22 \<notin> set b" by simp
  from drop_after[OF c3(1)] c3(3) have "drop s3 json = [CHR 0x22] @ u3" by simp
  from drop_after[OF this] have d3: "drop (s3 + 1) json = u3" by simp
  from find_from_char_Some[OF f4] obtain v rest where
    c4: "drop (s3 + 1) json = v @ CHR 0x22 # rest" "CHR 0x22 \<notin> set v" "e = s3 + 1 + length v"
    by blast
  from c4(1) d3 have u3: "u3 = v @ CHR 0x22 # rest" by simp
  from c4(3) have "substr json (s3 + 1) (e - s3 - 1) = v"
    unfolding substr_def c4(1) by simp
  with val have pv: "ParseGetVersionResponseJSON json key = v" by simp
  from j1 a(2) b(2) u3
  have "json = pre @ key @ a @ '':'' @ b @ [CHR 0x22] @ v @ [CHR 0x22] @ rest" by simp
  moreover from k3 lp have "\<forall>j<length pre. take (length key) (drop j json) \<noteq> key" by simp
  ultimately have "value_after json key v"
    unfolding value_after_def using na nb c4(2) by blast
  with pv show ?thesis by simp
qed

lemma Parse_empty_iff:
  "CHR '':'' \<notin> set key \<Longrightarrow>
   ParseGetVersionResponseJSON json key = [] \<longleftrightarrow> \<not> (\<exists>v. v \<noteq> [] \<and> value_after json key v)"
  using Parse_reads[of json key] Parse_nonempty_value_after[of json key] by metis

lemma value_after_occurs: "value_after json key v \<Longrightarrow> \<exists>p q. json = p @ key @ q"
  unfolding value_after_def by blast

lemma GetServerVersion_by_value:
  "GetServerVersion json =
     (if \<exists>w. w \<noteq> [] \<and> value_after json ''oethServerVersion'' w
      then ParseGetVersionResponseJSON json ''oethServerVersion''
      else if \<exists>w p q. value_after json ''error_msg'' w \<and> w = p @ ''404'' @ q
      then ''2.1.2'' else [])"
proof -
  have ko: "CHR '':'' \<notin> set ''oethServerVersion''" and ke: "CHR '':'' \<notin> set ''error_msg''"
    by simp_all
  let ?e = "ParseGetVersionResponseJSON json ''error_msg''"
  have a: "ParseGetVersionResponseJSON json ''oethServerVersion'' \<noteq> [] \<longleftrightarrow>
           (\<exists>w. w \<noteq> [] \<and> value_after json ''oethServerVersion'' w)"
    using Parse_empty_iff[OF ko, of json] by blast
  have b: "(\<exists>p q. ?e = p @ ''404'' @ q) \<longleftrightarrow>
           (\<exists>w p q. value_after json ''error_msg'' w \<and> w = p @ ''404'' @ q)"
  proof
    assume h: "\<exists>p q. ?e = p @ ''404'' @ q"
    then have "?e \<noteq> []" by auto
    from Parse_nonempty_value_after[OF this ke] h
    show "\<exists>w p q. value_after json ''error_msg'' w \<and> w = p @ ''404'' @ q" by blast
  next
    assume "\<exists>w p q. value_after json ''error_msg'' w \<and> w = p @ ''404'' @ q"
    then obtain w p q where w: "value_after json ''error_msg'' w" "w = p @ ''404'' @ q" by blast
    from Parse_reads[OF w(1) ke] w(2) show "\<exists>p q. ?e = p @ ''404'' @ q" by blast
  qed
  have c: "json = [] \<Longrightarrow> \<not> (\<exists>w. value_after json ''oethServerVersion'' w) \<and>
                         \<not> (\<exists>w. value_after json ''error_msg'' w)"
    by (auto simp: value_after_def)
  show ?thesis
  proof (cases "json = []")
    case True
    with c show ?thesis by (simp add: GetServerVersion_unfold)
  next
    case False
    show ?thesis
    proof (cases "\<exists>w. w \<noteq> [] \<and> value_after json ''oethServerVersion'' w")
      case True
      with a have "ParseGetVersionResponseJSON json ''oethServerVersion'' \<noteq> []" by simp
      with True False show ?thesis by (simp add: GetServerVersion_unfold)
    next
      case no: False
      with a have p: "ParseGetVersionResponseJSON json ''oethServerVersion'' = []" by simp
      show ?thesis
      proof (cases "\<exists>w p q. value_after json ''error_msg'' w \<and> w = p @ ''404'' @ q")
        case True
        with b have "\<exists>p q. ?e = p @ ''404'' @ q" by simp
        with True no p False show ?thesis by (simp add: GetServerVersion_unfold)
      next
        case ne: False
        with b have "\<not> (\<exists>p q. ?e = p @ ''404'' @ q)" by simp
        with ne no p False show ?thesis by (simp add: GetServerVersion_unfold)
      qed
    qed
  qed
qed

text \<open>
  Claim C10 says that \<open>GetServerVersion\<close> returns \<open>"2.1.2"\<close> when the response is not
  empty, contains no \<open>oethServerVersion\<close> value and contains an \<open>error_msg\<close> value with
  the substring \<open>"404"\<close>, and the empty string in every other failure case. The code does
  not read the response as JSON: for a key it takes the text between the first two double
  quotes that follow the first colon after the first place the key's text stands, anywhere
  in the response (\<open>value_after\<close>). Said of the response's text: the empty response gives
  the empty string; when no such text, or only an empty one, follows \<open>oethServerVersion\<close>,
  the result is \<open>"2.1.2"\<close> if the text that follows \<open>error_msg\<close> contains \<open>"404"\<close>, and
  the empty string if it does not or if there is none; a response in which the text of a
  key does not occur has no value after that key; and a text that is not empty after
  \<open>oethServerVersion\<close> is returned as it is.
\<close>

theorem GetServerVersion_on_response:
  "(json = [] \<longrightarrow> GetServerVersion json = []) \<and>
   (\<not> (\<exists>w. w \<noteq> [] \<and> value_after json ''oethServerVersion'' w) \<and>
    value_after json ''error_msg'' v
      \<longrightarrow> GetServerVersion json = (if \<exists>p q. v = p @ ''404'' @ q then ''2.1.2'' else [])) \<and>
   (\<not> (\<exists>w. w \<noteq> [] \<and> value_after json ''oethServerVersion'' w) \<and>
    \<not> (\<exists>w. value_after json ''error_msg'' w)
      \<longrightarrow> GetServerVersion json = []) \<and>
   (\<not> (\<exists>p q. json = p @ ''oethServerVersion'' @ q)
      \<longrightarrow> \<not> (\<exists>w. value_after json ''oethServerVersion'' w)) \<and>
   (\<not> (\<exists>p q. json = p @ ''error_msg'' @ q)
      \<longrightarrow> \<not> (\<exists>w. value_after json ''error_msg'' w)) \<and>
   (v \<noteq> [] \<and> value_after json ''oethServerVersion'' v \<longrightarrow> GetServerVersion json = v)"
proof -
  have ko: "CHR '':'' \<notin> set ''oethServerVersion''" and ke: "CHR '':'' \<notin> set ''error_msg''"
    by simp_all
  have c1: "GetServerVersion json = []" if "json = []"
    using that by (simp add: GetServerVersion_unfold)
  have c2: "GetServerVersion json = (if \<exists>p q. v = p @ ''404'' @ q then ''2.1.2'' else [])"
    if n: "\<not> (\<exists>w. w \<noteq> [] \<and> value_after json ''oethServerVersion'' w)"
      and e: "value_after json ''error_msg'' v"
  proof -
    have u: "w = v" if "value_after json ''error_msg'' w" for w
      using Parse_reads[OF that ke] Parse_reads[OF e ke] by simp
    have m: "(\<exists>w p q. value_after json ''error_msg'' w \<and> w = p @ ''404'' @ q) \<longleftrightarrow>
          (\<exists>p q. v = p @ ''404'' @ q)"
      using u e by blast
    show ?thesis
    proof (cases "\<exists>p q. v = p @ ''404'' @ q")
      case True
      with m have "\<exists>w p q. value_after json ''error_msg'' w \<and> w = p @ ''404'' @ q" by simp
      with n True show ?thesis by (auto simp: GetServerVersion_by_value)
    next
      case False
      with m have "\<not> (\<exists>w p q. value_after json ''error_msg'' w \<and> w = p @ ''404'' @ q)" by simp
      with n False show ?thesis by (auto simp: GetServerVersion_by_value)
    qed
  qed
  have c3: "GetServerVersion json = []"
    if "\<not> (\<exists>w. w \<noteq> [] \<and> value_after json ''oethServerVersion'' w)"
      "\<not> (\<exists>w. value_after json ''error_msg'' w)"
  proof -
    from that(2) have "\<not> (\<exists>w p q. value_after json ''error_msg'' w \<and> w = p @ ''404'' @ q)"
      by blast
    with that(1) show ?thesis by (auto simp: GetServerVersion_by_value)
  qed
  have c4: "\<not> (\<exists>w. value_after json key w)" if "\<not> (\<exists>p q. json = p @ key @ q)" for key
    using that value_after_occurs[of json key] by blast
  have c6: "GetServerVersion json = v" if "v \<noteq> []" "value_after json ''oethServerVersion'' v"
  proof -
    from that have "\<exists>w. w \<noteq> [] \<and> value_after json ''oethServerVersion'' w" by blast
    then have "GetServerVersion json = ParseGetVersionResponseJSON json ''oethServerVersion''"
      by (auto simp: GetServerVersion_by_value)
    with Parse_reads[OF that(2) ko] show ?thesis by simp
  qed
  from c1 c2 c3 c4[of "''oethServerVersion''"] c4[of "''error_msg''"] c6 show ?thesis by blast
qed

text \<open>
  An error body with 404 gives the default, one with 500 the empty string, so do the empty
  response and a page that names neither key; the body of a successful probe gives its
  version.
\<close>

theorem GetServerVersion_on_response_witness:
  "value_after response_404 ''error_msg'' ''HTTP 404 Not Found'' \<and>
   GetServerVersion response_404 = ''2.1.2'' \<and>
   value_after response_500 ''error_msg'' ''HTTP 500 Internal Server Error'' \<and>
   GetServerVersion response_500 = [] \<and>
   GetServerVersion [] = [] \<and>
   GetServerVersion response_no_keys = [] \<and>
   value_after response_ok ''oethServerVersion'' ''2.1.2'' \<and>
   GetServerVersion response_ok = ''2.1.2''"
proof -
  have v4: "value_after response_404 ''error_msg'' ''HTTP 404 Not Found''"
    unfolding value_after_def
    by (rule exI[of _ \<open>''{"''\<close>], rule exI[of _ \<open>''"''\<close>], rule exI[of _ "[]"],
        rule exI[of _ "''}''"]) (simp add: response_404_def less_Suc_eq)
  have v5: "value_after response_500 ''error_msg'' ''HTTP 500 Internal Server Error''"
    unfolding value_after_def
    by (rule exI[of _ \<open>''{"''\<close>], rule exI[of _ \<open>''"''\<close>], rule exI[of _ "[]"],
        rule exI[of _ "''}''"]) (simp add: response_500_def less_Suc_eq)
  have vo: "value_after response_ok ''oethServerVersion'' ''2.1.2''"
    unfolding value_after_def
    by (rule exI[of _ \<open>''{"''\<close>], rule exI[of _ \<open>''"''\<close>], rule exI[of _ "'' ''"],
        rule exI[of _ "''}''"]) (simp add: response_ok_def less_Suc_eq)
  have s4: "\<exists>p q. ''HTTP 404 Not Found'' = p @ ''404'' @ q"
    by (rule exI[of _ "''HTTP ''"], rule exI[of _ "'' Not Found''"]) simp
  have "find_from ''HTTP 500 Internal Server Error'' ''404'' 0 = None" by code_simp
  then have s5: "\<not> (\<exists>p q. ''HTTP 500 Internal Server Error'' = p @ ''404'' @ q)"
    by (simp add: find_from_0_None_iff)
  have "find_from response_404 ''oethServerVersion'' 0 = None" by code_simp
  then have o4: "\<not> (\<exists>p q. response_404 = p @ ''oethServerVersion'' @ q)"
    by (simp add: find_from_0_None_iff)
  have "find_from response_500 ''oethServerVersion'' 0 = None" by code_simp
  then have o5: "\<not> (\<exists>p q. response_500 = p @ ''oethServerVersion'' @ q)"
    by (simp add: find_from_0_None_iff)
  have "find_from response_no_keys ''oethServerVersion'' 0 = None" by code_simp
  then have on: "\<not> (\<exists>p q. response_no_keys = p @ ''oethServerVersion'' @ q)"
    by (simp add: find_from_0_None_iff)
  have "find_from response_no_keys ''error_msg'' 0 = None" by code_simp
  then have en: "\<not> (\<exists>p q. response_no_keys = p @ ''error_msg'' @ q)"
    by (simp add: find_from_0_None_iff)
  note t4 = GetServerVersion_on_response[of response_404 "''HTTP 404 Not Found''"]
  from t4 o4 have "\<not> (\<exists>w. w \<noteq> [] \<and> value_after response_404 ''oethServerVersion'' w)"
    by blast
  with t4 v4 s4 have r4: "GetServerVersion response_404 = ''2.1.2''" by simp
  note t5 = GetServerVersion_on_response[of response_500 "''HTTP 500 Internal Server Error''"]
  from t5 o5 have "\<not> (\<exists>w. w \<noteq> [] \<and> value_after response_500 ''oethServerVersion'' w)"
    by blast
  with t5 v5 s5 have r5: "GetServerVersion response_500 = []" by simp
  from GetServerVersion_on_response[of "[]"] have r0: "GetServerVersion [] = []" by blast
  note tn = GetServerVersion_on_response[of response_no_keys]
  from tn on en have rn: "GetServerVersion response_no_keys = []" by blast
  from GetServerVersion_on_response[of response_ok "''2.1.2''"] vo
  have ro: "GetServerVersion response_ok = ''2.1.2''" by simp
  from v4 r4 v5 r5 r0 rn vo ro show ?thesis by blast
qed

text \<open>
  Three responses on which the claim as worded fails. The first has no member
  \<open>oethServerVersion\<close> (the quoted name occurs nowhere) and the member \<open>error_msg\<close> with
  the value \<open>404\<close>, but the key's text stands inside another member's value: the result is
  \<open>"404"\<close>, not the default. The second has no \<open>oethServerVersion\<close> at all and an error
  text that contains 404 after an escaped double quote: the result is the empty string.
  The third has \<open>oethServerVersion\<close> \<open>null\<close> and an error text with 404: the result is
  \<open>"error_msg"\<close>.
\<close>

theorem GetServerVersion_on_response_counterexample:
  \<open>response_key_in_text =
     ''{"msg":"oethServerVersion missing",'' @ ''"error_msg":"404"'' @ ''}'' \<and>
   find_from response_key_in_text ''"oethServerVersion"'' 0 = None \<and>
   GetServerVersion response_key_in_text = ''404'' \<and>
   GetServerVersion response_key_in_text \<noteq> ''2.1.2'' \<and>
   find_from response_escaped_quote ''oethServerVersion'' 0 = None \<and>
   response_escaped_quote =
     ''{"error_msg":"'' @
       (''Not found: '' @ [CHR 0x5C, CHR 0x22] @ ''/getVersion'' @ [CHR 0x5C, CHR 0x22] @ '' 404'')
     @ ''"}'' \<and>
   GetServerVersion response_escaped_quote = [] \<and>
   GetServerVersion response_null_version = ''error_msg''\<close>
  by code_simp

section \<open>Properties of one update check\<close>

subsection \<open>The paths through PerformUpdateCheck\<close>

lemma try_block_unfold:
  "try_block k e sd =
     (case fetch_feed e of
        Inl x \<Rightarrow> ([], Some x)
      | Inr all \<Rightarrow>
          if filtered e all = []
          then ([NotifyNoUpdates (ShouldAutomaticallyInstall e) sd], None)
          else
            (case validate_urls e (candidate e all) of
               Some x \<Rightarrow> ([], Some x)
             | None \<Rightarrow>
                 (WriteConfigValue ''LastCheckTime'' (Now e)
                    # judge k e sd (AppBuildVersion e) (candidate e all), None)))"
  by (simp add: try_block_def filtered_def candidate_def Let_def split: sum.splits option.splits)

lemma judge_cases:
  "judge k e sd cur a = [NotifyNoUpdates (ShouldAutomaticallyInstall e) sd] \<or>
   (judge k e sd cur a = [] \<and> skip_policy k e a \<and> \<not> sd) \<or>
   judge k e sd cur a = [NotifyUpdateAvailable a (ShouldAutomaticallyInstall e)]"
  by (simp add: judge_def)

lemma judge_no_write: "filter is_write (judge k e sd cur a) = []"
  using judge_cases[of k e sd cur a] by auto

lemma try_block_throw_no_events: "try_block k e sd = (evs, Some x) \<Longrightarrow> evs = []"
  by (auto simp: try_block_unfold split: sum.splits if_splits option.splits)

lemma PerformUpdateCheck_returns:
  "try_block k e sd = (evs, None) \<Longrightarrow> PerformUpdateCheck k e sd = (evs, None)"
  by (simp add: PerformUpdateCheck_def)

lemma PerformUpdateCheck_throws:
  "try_block k e sd = (evs, Some x) \<Longrightarrow>
   PerformUpdateCheck k e sd =
     ((case x of
         DownloadException what \<Rightarrow>
           if sd then [NotifyUpdateError Err_AppcastXmlUnavailable what] else []
       | StdException what \<Rightarrow> if sd then [NotifyUpdateError Err_Generic what] else []
       | OtherException \<Rightarrow> [NotifyUpdateError Err_Generic ''Unknown exception'']),
      Some x)"
  using try_block_throw_no_events[of k e sd evs x]
  by (cases x) (simp_all add: PerformUpdateCheck_def)

lemma PerformUpdateCheck_snd: "snd (PerformUpdateCheck k e sd) = snd (try_block k e sd)"
  by (cases "try_block k e sd")
     (auto simp: PerformUpdateCheck_def split: option.splits exn.splits)

lemma PerformUpdateCheck_fetch_failed:
  "fetch_feed e = Inl x \<Longrightarrow>
   snd (PerformUpdateCheck k e sd) = Some x \<and> filter is_write (fst (PerformUpdateCheck k e sd)) = []"
  using PerformUpdateCheck_throws[of k e sd "[]" x]
  by (cases x) (simp_all add: try_block_unfold)

lemma PerformUpdateCheck_empty:
  "fetch_feed e = Inr all \<Longrightarrow> filtered e all = [] \<Longrightarrow>
   PerformUpdateCheck k e sd = ([NotifyNoUpdates (ShouldAutomaticallyInstall e) sd], None)"
  by (simp add: PerformUpdateCheck_def try_block_unfold)

lemma PerformUpdateCheck_url_rejected:
  "fetch_feed e = Inr all \<Longrightarrow> filtered e all \<noteq> [] \<Longrightarrow>
   validate_urls e (candidate e all) = Some x \<Longrightarrow>
   snd (PerformUpdateCheck k e sd) = Some x \<and> filter is_write (fst (PerformUpdateCheck k e sd)) = []"
  using PerformUpdateCheck_throws[of k e sd "[]" x]
  by (cases x) (simp_all add: try_block_unfold)

lemma PerformUpdateCheck_judged:
  "fetch_feed e = Inr all \<Longrightarrow> filtered e all \<noteq> [] \<Longrightarrow>
   validate_urls e (candidate e all) = None \<Longrightarrow>
   PerformUpdateCheck k e sd =
     (WriteConfigValue ''LastCheckTime'' (Now e)
        # judge k e sd (AppBuildVersion e) (candidate e all), None)"
  by (simp add: PerformUpdateCheck_def try_block_unfold)

subsection \<open>The skip policy and the notification\<close>

text \<open>
  Claim C6: \<open>ShouldSkipUpdate\<close> is false for every critical entry, whatever the stored skip
  preference; for an entry that is not critical it is true exactly when a skip version is
  stored and equals the entry's version string; the manual checker's variant is false for
  every entry; and a check that has chosen a valid candidate newer than the installed
  version leaves out the update notification exactly when \<open>ShouldSkipUpdate\<close> (of the
  checker at hand) is true and \<open>show_dialog\<close> is false, and otherwise notifies the host
  of that candidate.
\<close>

theorem ShouldSkipUpdate_policy:
  "(CriticalUpdate a \<longrightarrow> \<not> ShouldSkipUpdate e a) \<and>
   (\<not> CriticalUpdate a \<longrightarrow> (ShouldSkipUpdate e a \<longleftrightarrow> SkipThisVersion e = Some (Version a))) \<and>
   \<not> Manual_ShouldSkipUpdate e a \<and>
   \<not> skip_policy Manual e a \<and>
   skip_policy Periodic e a = ShouldSkipUpdate e a \<and>
   skip_policy OneShot e a = ShouldSkipUpdate e a \<and>
   (fetch_feed e = Inr all \<and> filtered e all \<noteq> [] \<and>
    validate_urls e (candidate e all) = None \<and> IsValid (candidate e all) \<and>
    CompareVersions (StringCompare e) (AppBuildVersion e) (Version (candidate e all)) < 0
    \<longrightarrow>
      notifications (fst (PerformUpdateCheck k e sd)) =
        (if skip_policy k e (candidate e all) \<and> \<not> sd then []
         else [NotifyUpdateAvailable (candidate e all) (ShouldAutomaticallyInstall e)]))"
proof -
  have "notifications (fst (PerformUpdateCheck k e sd)) =
        (if skip_policy k e (candidate e all) \<and> \<not> sd then []
         else [NotifyUpdateAvailable (candidate e all) (ShouldAutomaticallyInstall e)])"
    if "fetch_feed e = Inr all" "filtered e all \<noteq> []"
      "validate_urls e (candidate e all) = None" "IsValid (candidate e all)"
      "CompareVersions (StringCompare e) (AppBuildVersion e) (Version (candidate e all)) < 0"
    using that PerformUpdateCheck_judged[OF that(1,2,3), of k sd]
    by (simp add: notifications_def judge_def)
  then show ?thesis
    by (auto simp: ShouldSkipUpdate_def Manual_ShouldSkipUpdate_def split: option.splits)
qed

text \<open>
  With version 3.0 skipped by the user and no critical entry in the feed: the background
  check is silent, the manual check notifies of 3.0; the critical entry 2.0 of the other
  feed is not skipped although the user skipped 2.0.
\<close>

theorem ShouldSkipUpdate_policy_witness:
  "ShouldSkipUpdate env_skipped (entry ''3.0'' False) \<and>
   notifications (fst (PerformUpdateCheck Periodic env_skipped False)) = [] \<and>
   notifications (fst (PerformUpdateCheck Manual env_skipped False)) =
     [NotifyUpdateAvailable (entry ''3.0'' False) False] \<and>
   \<not> ShouldSkipUpdate (example_env\<lparr>SkipThisVersion := Some ''2.0''\<rparr>) (entry ''2.0'' True)"
proof -
  have c: "candidate env_skipped [entry ''1.0'' False, entry ''3.0'' False] = entry ''3.0'' False"
    by code_simp
  have f: "fetch_feed env_skipped = Inr [entry ''1.0'' False, entry ''3.0'' False]"
    by code_simp
  have n: "filtered env_skipped [entry ''1.0'' False, entry ''3.0'' False] \<noteq> []"
    by code_simp
  have v: "validate_urls env_skipped (entry ''3.0'' False) = None" by code_simp
  have i: "IsValid (entry ''3.0'' False)" by code_simp
  have o: "CompareVersions (StringCompare env_skipped) (AppBuildVersion env_skipped)
             (Version (entry ''3.0'' False)) < 0" by code_simp
  have nc: "\<not> CriticalUpdate (entry ''3.0'' False)" by code_simp
  have s: "SkipThisVersion env_skipped = Some (Version (entry ''3.0'' False))" by code_simp
  have cr: "CriticalUpdate (entry ''2.0'' True)" by code_simp
  have auto_install: "ShouldAutomaticallyInstall env_skipped = False" by code_simp
  note t = ShouldSkipUpdate_policy[of "entry ''3.0'' False" env_skipped
      "[entry ''1.0'' False, entry ''3.0'' False]"]
  from t[of Periodic False] nc s have sk: "ShouldSkipUpdate env_skipped (entry ''3.0'' False)"
    by blast
  from t[of Periodic False] f n v i o c sk
  have p: "notifications (fst (PerformUpdateCheck Periodic env_skipped False)) = []"
    by simp
  from t[of Manual False] f n v i o c auto_install
  have m: "notifications (fst (PerformUpdateCheck Manual env_skipped False)) =
     [NotifyUpdateAvailable (entry ''3.0'' False) False]"
    by simp
  from ShouldSkipUpdate_policy[of "entry ''2.0'' True" "example_env\<lparr>SkipThisVersion := Some ''2.0''\<rparr>"]
    cr
  have k: "\<not> ShouldSkipUpdate (example_env\<lparr>SkipThisVersion := Some ''2.0''\<rparr>) (entry ''2.0'' True)"
    by blast
  from sk p m k show ?thesis by blast
qed

subsection \<open>One notification for each check that returns\<close>

lemma one_notification_or_skipped:
  "snd (PerformUpdateCheck k e sd) = None \<Longrightarrow>
   notifications (fst (PerformUpdateCheck k e sd)) =
     [NotifyNoUpdates (ShouldAutomaticallyInstall e) sd] \<or>
   (\<exists>a. notifications (fst (PerformUpdateCheck k e sd)) =
     [NotifyUpdateAvailable a (ShouldAutomaticallyInstall e)]) \<or>
   (notifications (fst (PerformUpdateCheck k e sd)) = [] \<and> \<not> sd \<and>
    (\<exists>all. fetch_feed e = Inr all \<and> filtered e all \<noteq> [] \<and>
       skip_policy k e (candidate e all)))"
proof (cases "fetch_feed e")
  case (Inl x)
  assume "snd (PerformUpdateCheck k e sd) = None"
  with PerformUpdateCheck_fetch_failed[OF Inl, of k sd] show ?thesis by simp
next
  case (Inr all)
  assume r: "snd (PerformUpdateCheck k e sd) = None"
  show ?thesis
  proof (cases "filtered e all = []")
    case True
    from PerformUpdateCheck_empty[OF Inr True, of k sd] show ?thesis
      by (simp add: notifications_def)
  next
    case False
    show ?thesis
    proof (cases "validate_urls e (candidate e all)")
      case (Some x)
      from PerformUpdateCheck_url_rejected[OF Inr False Some, of k sd] r show ?thesis by simp
    next
      case None
      note j = PerformUpdateCheck_judged[OF Inr False None, of k sd]
      from judge_cases[of k e sd "AppBuildVersion e" "candidate e all"] show ?thesis
      proof (elim disjE conjE)
        assume "judge k e sd (AppBuildVersion e) (candidate e all) =
                [NotifyNoUpdates (ShouldAutomaticallyInstall e) sd]"
        with j show ?thesis by (simp add: notifications_def)
      next
        assume "judge k e sd (AppBuildVersion e) (candidate e all) = []"
          "skip_policy k e (candidate e all)" "\<not> sd"
        with j Inr False show ?thesis by (simp add: notifications_def)
      next
        assume "judge k e sd (AppBuildVersion e) (candidate e all) =
                [NotifyUpdateAvailable (candidate e all) (ShouldAutomaticallyInstall e)]"
        with j show ?thesis by (simp add: notifications_def)
      qed
    qed
  qed
qed

text \<open>
  Claim C7: a run of \<open>PerformUpdateCheck\<close> that returns (no exception leaves it) has
  notified the host exactly once, of no update or of an available update, except where
  the candidate it chose is skipped by the skip policy and \<open>show_dialog\<close> is false: a run
  on that path returns, having written the time stamp and notified nobody.
\<close>

theorem PerformUpdateCheck_one_notification:
  "(snd (PerformUpdateCheck k e sd) = None \<longrightarrow>
      notifications (fst (PerformUpdateCheck k e sd)) =
        [NotifyNoUpdates (ShouldAutomaticallyInstall e) sd] \<or>
      (\<exists>a. notifications (fst (PerformUpdateCheck k e sd)) =
        [NotifyUpdateAvailable a (ShouldAutomaticallyInstall e)]) \<or>
      (notifications (fst (PerformUpdateCheck k e sd)) = [] \<and> \<not> sd \<and>
       (\<exists>all. fetch_feed e = Inr all \<and> filtered e all \<noteq> [] \<and>
          skip_policy k e (candidate e all)))) \<and>
   (fetch_feed e = Inr all \<and> filtered e all \<noteq> [] \<and>
    validate_urls e (candidate e all) = None \<and> IsValid (candidate e all) \<and>
    CompareVersions (StringCompare e) (AppBuildVersion e) (Version (candidate e all)) < 0 \<and>
    skip_policy k e (candidate e all) \<and> \<not> sd
    \<longrightarrow> PerformUpdateCheck k e sd = ([WriteConfigValue ''LastCheckTime'' (Now e)], None))"
proof -
  have "PerformUpdateCheck k e sd = ([WriteConfigValue ''LastCheckTime'' (Now e)], None)"
    if "fetch_feed e = Inr all" "filtered e all \<noteq> []"
      "validate_urls e (candidate e all) = None" "IsValid (candidate e all)"
      "CompareVersions (StringCompare e) (AppBuildVersion e) (Version (candidate e all)) < 0"
      "skip_policy k e (candidate e all)" "\<not> sd"
    using that PerformUpdateCheck_judged[OF that(1,2,3), of k sd]
    by (simp add: judge_def)
  with one_notification_or_skipped[of k e sd] show ?thesis by blast
qed

text \<open>
  The check of the example feed returns and notifies once, of the update 2.0; the background
  check with 3.0 skipped returns and notifies nobody.
\<close>

theorem PerformUpdateCheck_one_notification_witness:
  "snd (PerformUpdateCheck OneShot example_env False) = None \<and>
   notifications (fst (PerformUpdateCheck OneShot example_env False)) =
     [NotifyUpdateAvailable (entry ''2.0'' True) False] \<and>
   snd (PerformUpdateCheck Periodic env_skipped False) = None \<and>
   notifications (fst (PerformUpdateCheck Periodic env_skipped False)) = [] \<and>
   (notifications (fst (PerformUpdateCheck Periodic env_skipped False)) =
      [NotifyNoUpdates (ShouldAutomaticallyInstall env_skipped) False] \<or>
    (\<exists>a. notifications (fst (PerformUpdateCheck Periodic env_skipped False)) =
      [NotifyUpdateAvailable a (ShouldAutomaticallyInstall env_skipped)]) \<or>
    (notifications (fst (PerformUpdateCheck Periodic env_skipped False)) = [] \<and> \<not> False \<and>
     (\<exists>all. fetch_feed env_skipped = Inr all \<and> filtered env_skipped all \<noteq> [] \<and>
        skip_policy Periodic env_skipped (candidate env_skipped all))))"
proof -
  have r1: "snd (PerformUpdateCheck OneShot example_env False) = None" by code_simp
  have n1: "notifications (fst (PerformUpdateCheck OneShot example_env False)) =
     [NotifyUpdateAvailable (entry ''2.0'' True) False]" by code_simp
  have r2: "snd (PerformUpdateCheck Periodic env_skipped False) = None" by code_simp
  have n2: "notifications (fst (PerformUpdateCheck Periodic env_skipped False)) = []"
    by code_simp
  from PerformUpdateCheck_one_notification[of Periodic env_skipped False] r1 n1 r2 n2
  show ?thesis by blast
qed

subsection \<open>The time stamp of the last check\<close>

lemma PerformUpdateCheck_writes:
  "filter is_write (fst (PerformUpdateCheck k e sd)) =
     (if \<exists>all. fetch_feed e = Inr all \<and> filtered e all \<noteq> [] \<and>
                validate_urls e (candidate e all) = None
      then [WriteConfigValue ''LastCheckTime'' (Now e)] else [])"
proof (cases "fetch_feed e")
  case (Inl x)
  with PerformUpdateCheck_fetch_failed[OF Inl, of k sd] show ?thesis by simp
next
  case (Inr all)
  show ?thesis
  proof (cases "filtered e all = []")
    case True
    with Inr PerformUpdateCheck_empty[OF Inr True, of k sd] show ?thesis by simp
  next
    case False
    show ?thesis
    proof (cases "validate_urls e (candidate e all)")
      case (Some x)
      with Inr PerformUpdateCheck_url_rejected[OF Inr False Some, of k sd] show ?thesis by simp
    next
      case None
      with Inr False PerformUpdateCheck_judged[OF Inr False None, of k sd]
        judge_no_write[of k e sd "AppBuildVersion e" "candidate e all"]
      show ?thesis by simp
    qed
  qed
qed

text \<open>
  Claim C8: a check writes the time stamp of the last check at one point only. The events
  of a check hold at most one write, and hold one exactly when the feed was fetched, some
  entry passed the filter and the URLs of the chosen candidate passed their check; the
  write is then the first event, in front of whatever the outdated judgment and the skip
  policy notify. When no entry passes the filter, the check notifies of no update and
  writes nothing.
\<close>

theorem LastCheckTime_written_once:
  "length (filter is_write (fst (PerformUpdateCheck k e sd))) \<le> 1 \<and>
   (filter is_write (fst (PerformUpdateCheck k e sd)) \<noteq> [] \<longleftrightarrow>
      (\<exists>all. fetch_feed e = Inr all \<and> filtered e all \<noteq> [] \<and>
         validate_urls e (candidate e all) = None)) \<and>
   (fetch_feed e = Inr all \<and> filtered e all \<noteq> [] \<and> validate_urls e (candidate e all) = None
      \<longrightarrow> fst (PerformUpdateCheck k e sd) =
            WriteConfigValue ''LastCheckTime'' (Now e)
              # judge k e sd (AppBuildVersion e) (candidate e all) \<and>
          filter is_write (judge k e sd (AppBuildVersion e) (candidate e all)) = []) \<and>
   (fetch_feed e = Inr all \<and> filtered e all = []
      \<longrightarrow> PerformUpdateCheck k e sd =
            ([NotifyNoUpdates (ShouldAutomaticallyInstall e) sd], None) \<and>
          filter is_write (fst (PerformUpdateCheck k e sd)) = [])"
proof -
  have a: "fst (PerformUpdateCheck k e sd) =
            WriteConfigValue ''LastCheckTime'' (Now e)
              # judge k e sd (AppBuildVersion e) (candidate e all)"
    if "fetch_feed e = Inr all" "filtered e all \<noteq> []" "validate_urls e (candidate e all) = None"
    using PerformUpdateCheck_judged[OF that, of k sd] by simp
  have b: "PerformUpdateCheck k e sd = ([NotifyNoUpdates (ShouldAutomaticallyInstall e) sd], None)"
    if "fetch_feed e = Inr all" "filtered e all = []"
    using PerformUpdateCheck_empty[OF that, of k sd] .
  have c: "length (filter is_write (fst (PerformUpdateCheck k e sd))) \<le> 1"
    by (simp add: PerformUpdateCheck_writes)
  have d: "filter is_write (fst (PerformUpdateCheck k e sd)) \<noteq> [] \<longleftrightarrow>
      (\<exists>all. fetch_feed e = Inr all \<and> filtered e all \<noteq> [] \<and>
         validate_urls e (candidate e all) = None)"
    by (simp add: PerformUpdateCheck_writes)
  have e: "filter is_write (fst (PerformUpdateCheck k e sd)) = []"
    if "fetch_feed e = Inr all" "filtered e all = []"
    using b[OF that] by simp
  from a b c d e judge_no_write[of k e sd "AppBuildVersion e" "candidate e all"]
  show ?thesis by blast
qed

text \<open>
  The example check writes once, first, and then notifies; with the probe failed no entry
  of that feed passes the filter, and the check notifies of no update and writes nothing.
\<close>

theorem LastCheckTime_written_once_witness:
  "fetch_feed example_env = Inr example_feed \<and> filtered example_env example_feed \<noteq> [] \<and>
   validate_urls example_env (candidate example_env example_feed) = None \<and>
   fst (PerformUpdateCheck OneShot example_env False) =
     WriteConfigValue ''LastCheckTime'' (Now example_env)
       # judge OneShot example_env False (AppBuildVersion example_env)
           (candidate example_env example_feed) \<and>
   fetch_feed env_no_probe = Inr example_feed \<and> filtered env_no_probe example_feed = [] \<and>
   PerformUpdateCheck OneShot env_no_probe False =
     ([NotifyNoUpdates (ShouldAutomaticallyInstall env_no_probe) False], None) \<and>
   filter is_write (fst (PerformUpdateCheck OneShot env_no_probe False)) = []"
proof -
  have f1: "fetch_feed example_env = Inr example_feed" by code_simp
  have n1: "filtered example_env example_feed \<noteq> []" by code_simp
  have v1: "validate_urls example_env (candidate example_env example_feed) = None"
    by code_simp
  have f2: "fetch_feed env_no_probe = Inr example_feed" by code_simp
  have n2: "filtered env_no_probe example_feed = []" by code_simp
  from LastCheckTime_written_once[of OneShot example_env False example_feed] f1 n1 v1
  have r1: "fst (PerformUpdateCheck OneShot example_env False) =
     WriteConfigValue ''LastCheckTime'' (Now example_env)
       # judge OneShot example_env False (AppBuildVersion example_env)
           (candidate example_env example_feed)" by blast
  from LastCheckTime_written_once[of OneShot env_no_probe False example_feed] f2 n2
  have r2: "PerformUpdateCheck OneShot env_no_probe False =
     ([NotifyNoUpdates (ShouldAutomaticallyInstall env_no_probe) False], None) \<and>
   filter is_write (fst (PerformUpdateCheck OneShot env_no_probe False)) = []" by blast
  from f1 n1 v1 r1 f2 n2 r2 show ?thesis by blast
qed

subsection \<open>Reporting an error\<close>

lemma PerformUpdateCheck_rethrows:
  "snd (try_block k e sd) = Some x \<Longrightarrow> snd (PerformUpdateCheck k e sd) = Some x"
  by (simp add: PerformUpdateCheck_snd)

lemma PerformUpdateCheck_error_report:
  "snd (PerformUpdateCheck k e sd) = Some x \<Longrightarrow>
   (filter is_error_report (fst (PerformUpdateCheck k e sd)) \<noteq> [] \<longleftrightarrow> sd \<or> x = OtherException)"
proof -
  assume a: "snd (PerformUpdateCheck k e sd) = Some x"
  then have "snd (try_block k e sd) = Some x" by (simp add: PerformUpdateCheck_snd)
  then obtain evs where "try_block k e sd = (evs, Some x)" by (cases "try_block k e sd") simp
  from PerformUpdateCheck_throws[OF this] show ?thesis by (cases x) simp_all
qed

text \<open>
  Claim C4 says that an error which aborts a run is reported to the host if and only if
  \<open>show_dialog\<close> is true, and is rethrown either way. The handlers for
  \<open>DownloadException\<close> and \<open>std::exception\<close> do so; the last handler, for any other
  exception, reports without looking at \<open>show_dialog\<close>. Here the download throws such an
  object in a background check (\<open>show_dialog\<close> false): the error is reported to the host,
  and rethrown.
\<close>

theorem PerformUpdateCheck_unknown_exception_reported:
  "PerformUpdateCheck Periodic env_unknown_exception False =
     ([NotifyUpdateError Err_Generic ''Unknown exception''], Some OtherException)"
  by code_simp

subsection \<open>The filter when the probe failed\<close>

lemma split_loop_first:
  "s \<noteq> [] \<Longrightarrow>
   split_loop t s cs \<noteq> [] \<and> first_char (split_loop t s cs ! 0) = first_char s"
proof (induction cs arbitrary: t s)
  case Nil
  then show ?case by simp
next
  case (Cons c cs)
  have "first_char (s @ [c]) = first_char s"
    using Cons.prems by (cases s) (simp_all add: first_char_def)
  with Cons.IH[of "s @ [c]" "ClassifyChar c"] Cons.prems show ?case
    by (simp add: Let_def)
qed

lemma SplitVersionString_first:
  "m \<noteq> [] \<Longrightarrow>
   SplitVersionString m \<noteq> [] \<and> first_char (SplitVersionString m ! 0) = first_char m"
proof (cases m)
  case Nil
  assume "m \<noteq> []"
  with Nil show ?thesis by simp
next
  case (Cons c cs)
  with split_loop_first[of "[c]" "ClassifyChar c" cs] show ?thesis
    by (simp add: SplitVersionString_def first_char_def)
qed

lemma CompareVersions_empty_left:
  "CompareVersions cmp [] m =
     (if m = [] then 0 else if ClassifyChar (first_char m) = Type_String then 1 else - 1)"
proof (cases "m = []")
  case True
  then show ?thesis by (simp add: CompareVersions_def SplitVersionString_def)
next
  case False
  have e: "SplitVersionString [] = []" by (simp add: SplitVersionString_def)
  from SplitVersionString_first[OF False] False show ?thesis
    by (simp add: CompareVersions_def e Let_def)
qed

lemma filter_min_server_empty:
  "filter_min_server cmp [] all =
     filter (\<lambda>a. MinServerVersion a = [] \<or>
                  ClassifyChar (first_char (MinServerVersion a)) = Type_String) all"
  unfolding filter_min_server_def
  by (rule filter_cong) (auto simp: CompareVersions_empty_left)

text \<open>
  Claim C3 says that with the server baseline absent (the probe failed, so
  \<open>GetServerVersion\<close> gave the empty string) the filter passes no entry, whatever the
  entries' minimum server versions, and the check ends in NoUpdate. The code compares the
  empty string with each entry's minimum server version: an entry is removed when that
  version starts with a digit or a period, and is kept when it is empty or starts with
  any other character. So the filtered set is the entries of the second kind; when a
  fetched feed has none, the filtered set is empty and the check notifies of no update.
\<close>

theorem filter_without_baseline:
  "GetServerVersion (VersionResponse e) = [] \<Longrightarrow>
   filtered e all =
     filter (\<lambda>a. MinServerVersion a = [] \<or>
                  ClassifyChar (first_char (MinServerVersion a)) = Type_String) all \<and>
   (fetch_feed e = Inr all \<and>
    (\<forall>a \<in> set all. MinServerVersion a \<noteq> [] \<and>
                     ClassifyChar (first_char (MinServerVersion a)) \<noteq> Type_String)
    \<longrightarrow> filtered e all = [] \<and>
        PerformUpdateCheck k e sd = ([NotifyNoUpdates (ShouldAutomaticallyInstall e) sd], None))"
proof -
  assume a: "GetServerVersion (VersionResponse e) = []"
  then have f: "filtered e all =
     filter (\<lambda>a. MinServerVersion a = [] \<or>
                  ClassifyChar (first_char (MinServerVersion a)) = Type_String) all"
    by (simp add: filtered_def filter_min_server_empty)
  have "filtered e all = [] \<and>
        PerformUpdateCheck k e sd = ([NotifyNoUpdates (ShouldAutomaticallyInstall e) sd], None)"
    if h: "fetch_feed e = Inr all"
      "\<forall>a \<in> set all. MinServerVersion a \<noteq> [] \<and>
                     ClassifyChar (first_char (MinServerVersion a)) \<noteq> Type_String"
  proof -
    from f h(2) have "filtered e all = []" by (simp add: filter_empty_conv)
    with PerformUpdateCheck_empty[OF h(1) this, of k sd] show ?thesis by simp
  qed
  with f show ?thesis by blast
qed

text \<open>
  The probe failed and every entry of the example feed asks for server version 2.0:
  nothing passes, and the check notifies of no update.
\<close>

theorem filter_without_baseline_witness:
  "GetServerVersion (VersionResponse env_no_probe) = [] \<and>
   fetch_feed env_no_probe = Inr example_feed \<and>
   filtered env_no_probe example_feed = [] \<and>
   PerformUpdateCheck Periodic env_no_probe False =
     ([NotifyNoUpdates (ShouldAutomaticallyInstall env_no_probe) False], None)"
proof -
  have g: "GetServerVersion (VersionResponse env_no_probe) = []" by code_simp
  have f: "fetch_feed env_no_probe = Inr example_feed" by code_simp
  have m: "\<forall>a \<in> set example_feed. MinServerVersion a \<noteq> [] \<and>
             ClassifyChar (first_char (MinServerVersion a)) \<noteq> Type_String"
    by code_simp
  from filter_without_baseline[OF g, of example_feed Periodic False] f m g
  show ?thesis by blast
qed

text \<open>
  The probe failed, and the one entry of the feed names no minimum server version: it
  passes the filter, and the check notifies of the update 2.0. An entry whose minimum
  server version is \<open>"v2.0"\<close> passes as well.
\<close>

theorem filter_without_baseline_counterexample:
  "GetServerVersion (VersionResponse env_probe_failed) = [] \<and>
   fetch_feed env_probe_failed = Inr [open_entry] \<and>
   filtered env_probe_failed [open_entry] = [open_entry] \<and>
   PerformUpdateCheck Periodic env_probe_failed False =
     ([WriteConfigValue ''LastCheckTime'' 1700001800, NotifyUpdateAvailable open_entry False],
      None) \<and>
   filtered env_probe_failed [lettered_entry] = [lettered_entry]"
  by code_simp

section \<open>Properties of the candidate selection\<close>

subsection \<open>The stable sort\<close>

lemma set_insert_by: "set (insert_by lt x xs) = insert x (set xs)"
  by (induction xs) auto

lemma set_stable_sort: "set (stable_sort lt xs) = set xs"
  by (induction xs) (simp_all add: stable_sort_def set_insert_by)

lemma length_insert_by: "length (insert_by lt x xs) = Suc (length xs)"
  by (induction xs) auto

lemma length_stable_sort: "length (stable_sort lt xs) = length xs"
  by (induction xs) (simp_all add: stable_sort_def length_insert_by)

lemma sorted_insert_by:
  assumes asym: "\<And>a b. lt a b \<Longrightarrow> \<not> lt b a"
    and trans: "\<And>a b c. \<not> lt b a \<Longrightarrow> \<not> lt c b \<Longrightarrow> \<not> lt c a"
  shows "sorted_wrt (\<lambda>a b. \<not> lt b a) xs \<Longrightarrow> sorted_wrt (\<lambda>a b. \<not> lt b a) (insert_by lt x xs)"
proof (induction xs)
  case Nil
  then show ?case by simp
next
  case (Cons y ys)
  show ?case
  proof (cases "lt y x")
    case True
    with Cons asym[OF True] show ?thesis by (auto simp: set_insert_by)
  next
    case False
    have "\<not> lt z x" if "z \<in> set ys" for z
    proof -
      from Cons.prems that have "\<not> lt z y" by simp
      from trans[OF False this] show ?thesis .
    qed
    with False Cons.prems show ?thesis by auto
  qed
qed

lemma sorted_stable_sort:
  assumes asym: "\<And>a b. lt a b \<Longrightarrow> \<not> lt b a"
    and trans: "\<And>a b c. \<not> lt b a \<Longrightarrow> \<not> lt c b \<Longrightarrow> \<not> lt c a"
  shows "sorted_wrt (\<lambda>a b. \<not> lt b a) (stable_sort lt xs)"
proof (induction xs)
  case Nil
  then show ?case by (simp add: stable_sort_def)
next
  case (Cons x xs)
  from sorted_insert_by[of lt "stable_sort lt xs" x, OF asym trans Cons]
  show ?case by (simp add: stable_sort_def)
qed

lemma count_insert_by: "count_list (insert_by lt x xs) y = count_list (x # xs) y"
  by (induction xs) auto

lemma count_stable_sort: "count_list (stable_sort lt xs) y = count_list xs y"
  by (induction xs) (simp_all add: stable_sort_def count_insert_by)

text \<open>
  Stability: the elements equivalent to a given one (neither less than the other) stand in
  the sorted list in the order they had.
\<close>

lemma filter_equiv_insert_by:
  assumes trans: "\<And>a b c. \<not> lt b a \<Longrightarrow> \<not> lt c b \<Longrightarrow> \<not> lt c a"
  shows "filter (\<lambda>y. \<not> lt a y \<and> \<not> lt y a) (insert_by lt x xs) =
         filter (\<lambda>y. \<not> lt a y \<and> \<not> lt y a) (x # xs)"
proof (induction xs)
  case Nil
  then show ?case by simp
next
  case (Cons y ys)
  show ?case
  proof (cases "lt y x")
    case True
    have "\<not> ((\<not> lt a x \<and> \<not> lt x a) \<and> (\<not> lt a y \<and> \<not> lt y a))"
    proof
      assume h: "(\<not> lt a x \<and> \<not> lt x a) \<and> (\<not> lt a y \<and> \<not> lt y a)"
      then have "\<not> lt a x" "\<not> lt y a" by simp_all
      from trans[OF this] True show False by simp
    qed
    with True Cons.IH show ?thesis by auto
  next
    case False
    then show ?thesis by simp
  qed
qed

lemma stable_sort_stable:
  assumes trans: "\<And>a b c. \<not> lt b a \<Longrightarrow> \<not> lt c b \<Longrightarrow> \<not> lt c a"
  shows "filter (\<lambda>y. \<not> lt a y \<and> \<not> lt y a) (stable_sort lt xs) =
         filter (\<lambda>y. \<not> lt a y \<and> \<not> lt y a) xs"
proof (induction xs)
  case Nil
  then show ?case by (simp add: stable_sort_def)
next
  case (Cons x xs)
  have "stable_sort lt (x # xs) = insert_by lt x (stable_sort lt xs)"
    by (simp add: stable_sort_def)
  with filter_equiv_insert_by[of lt a x "stable_sort lt xs", OF trans] Cons.IH
  show ?case by simp
qed

lemma sorted_wrt_last:
  "sorted_wrt R xs \<Longrightarrow> a \<in> set xs \<Longrightarrow> a = last xs \<or> R a (last xs)"
proof (induction xs)
  case Nil
  then show ?case by simp
next
  case (Cons x xs)
  show ?case
  proof (cases "xs = []")
    case True
    with Cons.prems show ?thesis by simp
  next
    case False
    then have l: "last (x # xs) = last xs" "last xs \<in> set xs" by simp_all
    show ?thesis
    proof (cases "a = x")
      case True
      with Cons.prems(1) l show ?thesis by auto
    next
      case False
      with Cons.prems have "a \<in> set xs" "sorted_wrt R xs" by auto
      from Cons.IH[OF this(2,1)] l show ?thesis by simp
    qed
  qed
qed

lemma sort_by_version_last_highest:
  assumes c: "compare_contract cmp" and a: "a \<in> set (sort_by_version cmp all)"
  shows "CompareVersions cmp (Version a) (Version (last (sort_by_version cmp all))) \<le> 0"
proof -
  let ?lt = "\<lambda>a b. CompareVersions cmp (Version a) (Version b) < 0"
  have asym: "\<not> ?lt y x" if "?lt x y" for x y
    using that CompareVersions_neg_swap[OF c, of "Version x" "Version y"] by linarith
  have trans: "\<not> ?lt z x" if "\<not> ?lt y x" "\<not> ?lt z y" for x y z
    using that CompareVersions_trans_nonneg[OF c, of "Version z" "Version y" "Version x"]
    by linarith
  have "sorted_wrt (\<lambda>a b. \<not> ?lt b a) (stable_sort ?lt all)"
    by (rule sorted_stable_sort[of ?lt, OF asym trans])
  then have s: "sorted_wrt (\<lambda>a b. \<not> ?lt b a) (sort_by_version cmp all)"
    by (simp add: sort_by_version_def)
  let ?l = "last (sort_by_version cmp all)"
  from sorted_wrt_last[OF s a] have "a = ?l \<or> \<not> ?lt ?l a" .
  then show ?thesis
  proof
    assume "a = ?l"
    with CompareVersions_refl[OF c, of "Version a"] show ?thesis by simp
  next
    assume "\<not> ?lt ?l a"
    then have "CompareVersions cmp (Version ?l) (Version a) \<ge> 0" by simp
    with CompareVersions_anti[OF c, of "Version a" "Version ?l"] show ?thesis
      by (simp add: sgn_if split: if_splits)
  qed
qed

subsection \<open>The choice\<close>

lemma choose_appcast_first:
  "i < length all \<Longrightarrow> critical_and_newer cmp cur (all ! i) \<Longrightarrow>
   (\<forall>j<i. \<not> critical_and_newer cmp cur (all ! j)) \<Longrightarrow> choose_appcast cmp cur all = all ! i"
proof -
  assume "i < length all" "critical_and_newer cmp cur (all ! i)"
    "\<forall>j<i. \<not> critical_and_newer cmp cur (all ! j)"
  then have "find (critical_and_newer cmp cur) all = Some (all ! i)"
    unfolding find_Some_iff by blast
  then show ?thesis by (simp add: choose_appcast_def)
qed

lemma choose_appcast_last:
  "(\<forall>a \<in> set all. \<not> critical_and_newer cmp cur a) \<Longrightarrow> choose_appcast cmp cur all = last all"
proof -
  assume "\<forall>a \<in> set all. \<not> critical_and_newer cmp cur a"
  then have "find (critical_and_newer cmp cur) all = None"
    unfolding find_None_iff by blast
  then show ?thesis by (simp add: choose_appcast_def)
qed

lemma candidate_example:
  "Version (choose_appcast cmp ''0.5''
     (sort_by_version cmp (filter_min_server cmp ''2.1.2'' example_feed))) = ''2.0''"
  by code_simp

text \<open>
  Claim C2: on the list of entries that passed the baseline filter, sorted ascending by
  version, the selection takes the first entry that is critical and strictly newer than
  the installed version (\<open>CompareVersions(currentVersion, Version) < 0\<close>), and the last
  entry when there is none; the sorted list holds the same entries as the filtered one and
  no entry of it has a higher version than its last. With the entries 1.0, 2.0 (critical)
  and 3.0 and the installed version 0.5 the candidate is 2.0, and the check notifies of it.
\<close>

theorem candidate_selection:
  "(\<forall>i<length all.
      critical_and_newer cmp cur (all ! i) \<and> (\<forall>j<i. \<not> critical_and_newer cmp cur (all ! j))
      \<longrightarrow> choose_appcast cmp cur all = all ! i) \<and>
   ((\<forall>a \<in> set all. \<not> critical_and_newer cmp cur a) \<longrightarrow> choose_appcast cmp cur all = last all) \<and>
   set (sort_by_version cmp all) = set all \<and>
   (compare_contract cmp \<longrightarrow>
      (\<forall>a \<in> set (sort_by_version cmp all).
         CompareVersions cmp (Version a) (Version (last (sort_by_version cmp all))) \<le> 0)) \<and>
   candidate e all =
     choose_appcast (StringCompare e) (AppBuildVersion e)
       (sort_by_version (StringCompare e) (filtered e all)) \<and>
   Version (choose_appcast cmp ''0.5''
     (sort_by_version cmp (filter_min_server cmp ''2.1.2'' example_feed))) = ''2.0'' \<and>
   notifications (fst (PerformUpdateCheck OneShot example_env False)) =
     [NotifyUpdateAvailable (entry ''2.0'' True) False]"
proof -
  have n: "notifications (fst (PerformUpdateCheck OneShot example_env False)) =
     [NotifyUpdateAvailable (entry ''2.0'' True) False]" by code_simp
  have s: "set (sort_by_version cmp all) = set all"
    by (simp add: sort_by_version_def set_stable_sort)
  from n s candidate_example[of cmp] choose_appcast_first[of _ all cmp cur]
    choose_appcast_last[of all cmp cur] sort_by_version_last_highest[of cmp _ all]
  show ?thesis by (simp add: candidate_def)
qed

text \<open>
  In the example feed, sorted as it is, the entry at index 1 is the first critical and
  newer one and is chosen; a feed without a critical entry gives its last entry; and 1.0
  is not above the last entry of the sorted feed.
\<close>

theorem candidate_selection_witness:
  "critical_and_newer compare_diff ''0.5'' (example_feed ! 1) \<and>
   \<not> critical_and_newer compare_diff ''0.5'' (example_feed ! 0) \<and>
   choose_appcast compare_diff ''0.5'' example_feed = example_feed ! 1 \<and>
   choose_appcast compare_diff ''0.5'' [entry ''3.0'' False, entry ''1.0'' False] =
     last [entry ''3.0'' False, entry ''1.0'' False] \<and>
   compare_contract compare_diff \<and>
   CompareVersions compare_diff (Version (entry ''1.0'' False))
     (Version (last (sort_by_version compare_diff [entry ''3.0'' False, entry ''1.0'' False]))) \<le> 0"
proof -
  have l: "1 < length example_feed" by code_simp
  have p1: "critical_and_newer compare_diff ''0.5'' (example_feed ! 1)" by code_simp
  have p0: "\<not> critical_and_newer compare_diff ''0.5'' (example_feed ! 0)" by code_simp
  then have b: "\<forall>j<1. \<not> critical_and_newer compare_diff ''0.5'' (example_feed ! j)" by simp
  from candidate_selection[of example_feed compare_diff "''0.5''"] l p1 b
  have r1: "choose_appcast compare_diff ''0.5'' example_feed = example_feed ! 1" by blast
  have none: "\<forall>a \<in> set [entry ''3.0'' False, entry ''1.0'' False].
                \<not> critical_and_newer compare_diff ''0.5'' a" by code_simp
  note t = candidate_selection[of "[entry ''3.0'' False, entry ''1.0'' False]" compare_diff "''0.5''"]
  from t none
  have r2: "choose_appcast compare_diff ''0.5'' [entry ''3.0'' False, entry ''1.0'' False] =
     last [entry ''3.0'' False, entry ''1.0'' False]" by blast
  from t have "set (sort_by_version compare_diff [entry ''3.0'' False, entry ''1.0'' False]) =
     set [entry ''3.0'' False, entry ''1.0'' False]" by blast
  then have m: "entry ''1.0'' False \<in>
     set (sort_by_version compare_diff [entry ''3.0'' False, entry ''1.0'' False])" by simp
  from t compare_diff_contract m
  have r3: "CompareVersions compare_diff (Version (entry ''1.0'' False))
     (Version (last (sort_by_version compare_diff [entry ''3.0'' False, entry ''1.0'' False]))) \<le> 0"
    by blast
  from p1 p0 r1 r2 r3 compare_diff_contract show ?thesis by blast
qed

section \<open>Properties of the periodic scheduler\<close>

lemma to_unsigned_id: "0 \<le> x \<Longrightarrow> x < 2 ^ 32 \<Longrightarrow> to_unsigned x = x"
  by (simp add: to_unsigned_def)

lemma wait_for_in_range:
  "0 \<le> secs \<Longrightarrow> secs \<le> 4294967 \<Longrightarrow>
   wait_for ran_cycle (to_unsigned secs) =
     \<lparr>cycle_run = ran_cycle, sleepTimeInSeconds = secs, timeout_ms = secs * 1000\<rparr>"
proof -
  assume a: "0 \<le> secs" "secs \<le> 4294967"
  then have "to_unsigned secs = secs" by (simp add: to_unsigned_id)
  moreover from a have "to_unsigned (secs * 1000) = secs * 1000" by (simp add: to_unsigned_id)
  ultimately show ?thesis by (simp add: wait_for_def)
qed

text \<open>
  Within range the scheduler does what is expected of it. Take a turn with checking
  enabled, an interval of at most 4294967 seconds (49.7 days, so that its count of
  milliseconds fits 32 bits) and a last check that is not in the future: when
  the next check is due a check runs with \<open>show_dialog\<close> false and, if it returns, the
  wait is the interval; when it is not due no check runs and the wait is
  \<open>nextCheck - now\<close> seconds. With a last check at \<open>T\<close>, an interval of 3600 and the
  time \<open>T + 1800\<close>, no check runs and the wait is 1800 seconds.
\<close>

theorem Run_turn_in_range:
  "CheckForUpdates e = Some True \<Longrightarrow> 0 < UpdateCheckInterval e \<Longrightarrow>
   UpdateCheckInterval e \<le> 4294967 \<Longrightarrow>
   lastCheck = (case LastCheckTime e of Some t \<Rightarrow> t | None \<Rightarrow> 0) \<Longrightarrow> lastCheck \<le> now \<Longrightarrow>
   nextCheck = lastCheck + UpdateCheckInterval e \<Longrightarrow>
   (now \<ge> nextCheck \<longrightarrow>
      Run_turn e now =
        (case PerformUpdateCheck Periodic e False of
           (evs, Some x) \<Rightarrow> (evs, Inl x)
         | (evs, None) \<Rightarrow>
             (evs, Inr \<lparr>cycle_run = True, sleepTimeInSeconds = UpdateCheckInterval e,
                        timeout_ms = UpdateCheckInterval e * 1000\<rparr>))) \<and>
   (now < nextCheck \<longrightarrow>
      Run_turn e now =
        ([], Inr \<lparr>cycle_run = False, sleepTimeInSeconds = nextCheck - now,
                   timeout_ms = (nextCheck - now) * 1000\<rparr>)) \<and>
   (UpdateCheckInterval e = 3600 \<and> now = lastCheck + 1800 \<longrightarrow>
      Run_turn e now =
        ([], Inr \<lparr>cycle_run = False, sleepTimeInSeconds = 1800, timeout_ms = 1800000\<rparr>))"
proof -
  assume en: "CheckForUpdates e = Some True" and i0: "0 < UpdateCheckInterval e"
    and i1: "UpdateCheckInterval e \<le> 4294967"
    and lc: "lastCheck = (case LastCheckTime e of Some t \<Rightarrow> t | None \<Rightarrow> 0)"
    and past: "lastCheck \<le> now" and nc: "nextCheck = lastCheck + UpdateCheckInterval e"
  from i0 i1 have w: "wait_for True (to_unsigned (UpdateCheckInterval e)) =
      \<lparr>cycle_run = True, sleepTimeInSeconds = UpdateCheckInterval e,
       timeout_ms = UpdateCheckInterval e * 1000\<rparr>"
    by (simp add: wait_for_in_range)
  have due: "Run_turn e now =
        (case PerformUpdateCheck Periodic e False of
           (evs, Some x) \<Rightarrow> (evs, Inl x)
         | (evs, None) \<Rightarrow>
             (evs, Inr \<lparr>cycle_run = True, sleepTimeInSeconds = UpdateCheckInterval e,
                        timeout_ms = UpdateCheckInterval e * 1000\<rparr>))"
    if "now \<ge> nextCheck"
    using that en lc nc w
    by (cases "PerformUpdateCheck Periodic e False")
       (simp add: Run_turn_def Let_def split: option.splits)
  have notdue: "Run_turn e now =
        ([], Inr \<lparr>cycle_run = False, sleepTimeInSeconds = nextCheck - now,
                   timeout_ms = (nextCheck - now) * 1000\<rparr>)"
    if "now < nextCheck"
  proof -
    from that past nc i1 have "0 \<le> nextCheck - now" "nextCheck - now \<le> 4294967" by simp_all
    from wait_for_in_range[OF this] that en lc nc show ?thesis
      by (simp add: Run_turn_def Let_def)
  qed
  have ex: "Run_turn e now =
        ([], Inr \<lparr>cycle_run = False, sleepTimeInSeconds = 1800, timeout_ms = 1800000\<rparr>)"
    if "UpdateCheckInterval e = 3600" "now = lastCheck + 1800"
  proof -
    from that nc have "now < nextCheck" "nextCheck - now = 1800" by simp_all
    with notdue show ?thesis by simp
  qed
  from due notdue ex show ?thesis by blast
qed

text \<open>
  The example: last check at 1700000000 and an interval of 3600. At 1700001800 no check
  runs and the wait is 1800 seconds; at 1700003600 the check runs and the wait is 3600.
\<close>

theorem Run_turn_in_range_witness:
  "CheckForUpdates example_env = Some True \<and>
   UpdateCheckInterval example_env = 3600 \<and>
   LastCheckTime example_env = Some 1700000000 \<and>
   Run_turn example_env 1700001800 =
     ([], Inr \<lparr>cycle_run = False, sleepTimeInSeconds = 1800, timeout_ms = 1800000\<rparr>) \<and>
   Run_turn example_env 1700003600 =
     (fst (PerformUpdateCheck Periodic example_env False),
      Inr \<lparr>cycle_run = True, sleepTimeInSeconds = 3600, timeout_ms = 3600000\<rparr>)"
proof -
  have en: "CheckForUpdates example_env = Some True" by code_simp
  have iv: "UpdateCheckInterval example_env = 3600" by code_simp
  have lt: "LastCheckTime example_env = Some 1700000000" by code_simp
  have i0: "0 < UpdateCheckInterval example_env" by (simp add: iv)
  have i1: "UpdateCheckInterval example_env \<le> 4294967" by (simp add: iv)
  have lc: "1700000000 = (case LastCheckTime example_env of Some t \<Rightarrow> t | None \<Rightarrow> 0)"
    by (simp add: lt)
  have nc: "1700003600 = 1700000000 + UpdateCheckInterval example_env" by (simp add: iv)
  have p1: "(1700000000::int) \<le> 1700001800" by simp
  have p2: "(1700000000::int) \<le> 1700003600" by simp
  have q1: "(1700001800::int) < 1700003600" by simp
  have q2: "(1700003600::int) \<ge> 1700003600" by simp
  have d: "(1700003600::int) - 1700001800 = 1800" by simp
  from Run_turn_in_range[OF en i0 i1 lc p1 nc] q1
  have "Run_turn example_env 1700001800 =
        ([], Inr \<lparr>cycle_run = False, sleepTimeInSeconds = 1700003600 - 1700001800,
                   timeout_ms = (1700003600 - 1700001800) * 1000\<rparr>)"
    by blast
  then have a: "Run_turn example_env 1700001800 =
     ([], Inr \<lparr>cycle_run = False, sleepTimeInSeconds = 1800, timeout_ms = 1800000\<rparr>)"
    by (simp only: d) simp
  have "snd (PerformUpdateCheck Periodic example_env False) = None" by code_simp
  then obtain evs where ev: "PerformUpdateCheck Periodic example_env False = (evs, None)"
    by (cases "PerformUpdateCheck Periodic example_env False") auto
  from Run_turn_in_range[OF en i0 i1 lc p2 nc] q2
  have "Run_turn example_env 1700003600 =
        (case PerformUpdateCheck Periodic example_env False of
           (evs, Some x) \<Rightarrow> (evs, Inl x)
         | (evs, None) \<Rightarrow>
             (evs, Inr \<lparr>cycle_run = True, sleepTimeInSeconds = UpdateCheckInterval example_env,
                        timeout_ms = UpdateCheckInterval example_env * 1000\<rparr>))"
    by blast
  then have b: "Run_turn example_env 1700003600 =
     (fst (PerformUpdateCheck Periodic example_env False),
      Inr \<lparr>cycle_run = True, sleepTimeInSeconds = 3600, timeout_ms = 3600000\<rparr>)"
    by (simp add: ev iv)
  from en iv lt a b show ?thesis by blast
qed

text \<open>
  Claim C9 says that, with checking enabled, a turn whose next check is due runs a check
  with \<open>show_dialog\<close> false and then waits the full interval, and a turn whose next check
  is not due runs none and waits exactly \<open>nextCheck - now\<close> seconds. The seconds are
  counted in a 32-bit \<open>unsigned\<close> and handed to \<open>WaitUntilSignaled\<close> as
  \<open>sleepTimeInSeconds * 1000\<close>, a product in 32 bits. With an interval of 5000000
  seconds and a last check at 1700000000: one second later no check runs and 4999999
  seconds remain, but the timeout is 705031704 milliseconds; and when the check is due and
  has returned, the timeout is 705032704 milliseconds, not 5000000 seconds.
\<close>

theorem Run_turn_long_interval:
  "Run_turn env_long_interval 1700000001 =
     ([], Inr \<lparr>cycle_run = False, sleepTimeInSeconds = 4999999, timeout_ms = 705031704\<rparr>) \<and>
   snd (Run_turn env_long_interval 1705000000) =
     Inr \<lparr>cycle_run = True, sleepTimeInSeconds = 5000000, timeout_ms = 705032704\<rparr>"
  by code_simp

end
